theory Spec2Isabelle
  imports Complex_Main "HOL-Library.Sublist"
begin

section \<open>Values delivered by the transport\<close>

text \<open>
  A frame is a text; the handler decodes it with \<open>JSON.parse\<close>. The result of the
  decoder is the input of the model: \<open>None\<close> when \<open>JSON.parse\<close> throws, \<open>Some v\<close>
  otherwise. A decoded object is the list of its own properties; the decoder keeps one
  value for each key. A number is given by its value; the handler only tests a number for
  being zero. A string is the list of the bytes of its UTF-8 encoding (a lone surrogate
  by the three bytes of its code point, so that two strings are equal when their bytes
  are); the code compares strings, tests them for being empty, splits them at line
  feeds, trims them and puts them in upper case, and never counts or indexes their
  characters.
\<close>

datatype json =
    JNull
  | JBool bool
  | JNum real
  | JStr string
  | JArr "json list"
  | JObj "(string \<times> json) list"

text \<open>A JavaScript value read from a decoded frame: \<open>None\<close> is \<open>undefined\<close>.\<close>

type_synonym jsval = "json option"

datatype error = TypeError

text \<open>Truthiness of a decoded value (\<open>NaN\<close> does not come out of the decoder).\<close>

fun truthy :: "json \<Rightarrow> bool" where
  "truthy JNull = False"
| "truthy (JBool b) = b"
| "truthy (JNum n) = (n \<noteq> 0)"
| "truthy (JStr s) = (s \<noteq> [])"
| "truthy (JArr xs) = True"
| "truthy (JObj kvs) = True"

fun truthyVal :: "jsval \<Rightarrow> bool" where
  "truthyVal None = False"
| "truthyVal (Some v) = truthy v"

text \<open>
  Property read \<open>v.k\<close> on a value that is not \<open>null\<close>, for the property names the handler
  reads (\<open>type\<close>, \<open>data\<close>, \<open>timestamp\<close>, \<open>level\<close>, \<open>message\<close>, \<open>isStructured\<close>): an
  object gives its own property, every other value gives \<open>undefined\<close>. On \<open>null\<close> the
  read throws; the callers test for \<open>null\<close> before they read.
\<close>

fun get :: "json \<Rightarrow> string \<Rightarrow> jsval" where
  "get (JObj kvs) k = map_of kvs k"
| "get v k = None"

text \<open>\<open>Array.isArray(v)\<close> and \<open>typeof v === 'string'\<close>\<close>

fun isArray :: "jsval \<Rightarrow> bool" where
  "isArray (Some (JArr xs)) = True"
| "isArray v = False"

fun isString :: "jsval \<Rightarrow> bool" where
  "isString (Some (JStr str)) = True"
| "isString v = False"

text \<open>\<open>a || b\<close> where \<open>b\<close> is a decoded value or a string.\<close>

fun orElse :: "jsval \<Rightarrow> json \<Rightarrow> json" where
  "orElse None b = b"
| "orElse (Some a) b = (if truthy a then a else b)"

text \<open>\<open>v.isStructured !== undefined ? v.isStructured : true\<close>\<close>

fun structuredFlag :: "json \<Rightarrow> json" where
  "structuredFlag v = (case get v ''isStructured'' of None \<Rightarrow> JBool True | Some b \<Rightarrow> b)"

section \<open>Strings\<close>

definition newline :: char where
  "newline = CHR 0x0A"

text \<open>\<open>str.split('\n')\<close>: the pieces between the line feeds, at least one piece.\<close>

fun split :: "string \<Rightarrow> string list" where
  "split [] = [[]]"
| "split (c # cs) =
     (if c = newline then [] # split cs
      else (case split cs of [] \<Rightarrow> [[c]] | l # ls \<Rightarrow> (c # l) # ls))"

text \<open>
  The white space that \<open>String.prototype.trim\<close> strips, each character by its UTF-8
  encoding: TAB, LF, VT, FF, CR, SPACE, U+00A0, U+1680, U+2000 to U+200A, U+2028, U+2029,
  U+202F, U+205F, U+3000 and U+FEFF.
\<close>

definition whiteSpace :: "string list" where
  "whiteSpace =
     [[CHR 0x09], [CHR 0x0A], [CHR 0x0B], [CHR 0x0C], [CHR 0x0D], [CHR 0x20],
      [CHR 0xC2, CHR 0xA0],
      [CHR 0xE1, CHR 0x9A, CHR 0x80],
      [CHR 0xE2, CHR 0x80, CHR 0x80], [CHR 0xE2, CHR 0x80, CHR 0x81],
      [CHR 0xE2, CHR 0x80, CHR 0x82], [CHR 0xE2, CHR 0x80, CHR 0x83],
      [CHR 0xE2, CHR 0x80, CHR 0x84], [CHR 0xE2, CHR 0x80, CHR 0x85],
      [CHR 0xE2, CHR 0x80, CHR 0x86], [CHR 0xE2, CHR 0x80, CHR 0x87],
      [CHR 0xE2, CHR 0x80, CHR 0x88], [CHR 0xE2, CHR 0x80, CHR 0x89],
      [CHR 0xE2, CHR 0x80, CHR 0x8A],
      [CHR 0xE2, CHR 0x80, CHR 0xA8], [CHR 0xE2, CHR 0x80, CHR 0xA9],
      [CHR 0xE2, CHR 0x80, CHR 0xAF],
      [CHR 0xE2, CHR 0x81, CHR 0x9F],
      [CHR 0xE3, CHR 0x80, CHR 0x80],
      [CHR 0xEF, CHR 0xBB, CHR 0xBF]]"

text \<open>Take the given characters off the front of a string, as long as there is one.\<close>

function strip :: "string list \<Rightarrow> string \<Rightarrow> string" where
  "strip ws s =
     (case filter (\<lambda>w. w \<noteq> [] \<and> prefix w s) ws of
        [] \<Rightarrow> s
      | w # _ \<Rightarrow> strip ws (drop (length w) s))"
  by pat_completeness auto
termination
proof (relation "measure (\<lambda>(ws, s). length s)")
  show "wf (measure (\<lambda>(ws, s). length s))" by simp
next
  fix ws :: "string list" and s w :: string and rest
  assume "filter (\<lambda>w. w \<noteq> [] \<and> prefix w s) ws = w # rest"
  then have "w \<in> set (filter (\<lambda>w. w \<noteq> [] \<and> prefix w s) ws)" by simp
  then have "w \<noteq> []" and "prefix w s" by simp_all
  then have "length (drop (length w) s) < length s"
    by (auto simp: prefix_def)
  then show "((ws, drop (length w) s), (ws, s)) \<in> measure (\<lambda>(ws, s). length s)" by simp
qed

declare strip.simps [simp del]

text \<open>\<open>s.trim()\<close>: the white space is taken off the front and off the end.\<close>

definition trim :: "string \<Rightarrow> string" where
  "trim s = rev (strip (map rev whiteSpace) (rev (strip whiteSpace s)))"

text \<open>
  \<open>String.prototype.toUpperCase\<close> is a function of the host on all of Unicode. The
  definitions below take it as the parameter \<open>toUpperCase\<close>, and the statements hold for
  every function in its place that has the properties they name.
\<close>

section \<open>Log records and the state of the component\<close>

text \<open>
  The two template strings that make an id, kept by their parts:
  \<open>history-${Date.now()}-${index}\<close> and \<open>log-${Date.now()}-${Math.random()}\<close>.
\<close>

datatype log_id = HistoryId nat nat | LogId nat real

record log_entry =
  ident :: log_id
  lineNumber :: nat
  timestamp :: jsval
  level :: jsval
  message :: jsval
  isStructured :: json
  isHistory :: bool

text \<open>
  What the host returns while one frame is handled: the clock readings of each call site
  (by entry index inside a history batch) and the text of \<open>JSON.stringify\<close>.
\<close>

record host =
  lineTime :: "nat \<Rightarrow> string"
  entryNow :: "nat \<Rightarrow> nat"
  entryTime :: "nat \<Rightarrow> string"
  frameNow :: nat
  frameRandom :: real
  frameTime :: string
  stringify :: "json \<Rightarrow> string"

datatype readyState = CONNECTING | OPEN | CLOSING | CLOSED

datatype timerState = Pending | Fired | Cleared

text \<open>
  The state: the React state (\<open>logs\<close>, \<open>isConnected\<close>, \<open>connectionStatus\<close>,
  \<open>filterLevel\<close>), the refs, the flag \<open>isCleanedUp\<close> of the effect, and the objects the
  component has created in the browser: every WebSocket (a socket handle is its position
  in \<open>sockets\<close>) and every timeout (the timer id \<open>t\<close> is position \<open>t - 1\<close> in \<open>timers\<close>;
  ids are positive). The counter is a JavaScript number, exact below \<open>2 ^ 53\<close>.
\<close>

record app_state =
  logs :: "log_entry list"
  isConnected :: bool
  connectionStatus :: string
  filterLevel :: string
  wsRef :: "nat option"
  reconnectTimeoutRef :: "nat option"
  logCounterRef :: nat
  isCleanedUp :: bool
  sockets :: "readyState list"
  timers :: "timerState list"

section \<open>The message handler\<close>

text \<open>The entries of a string payload: one object for each line that is not blank.\<close>

fun lineEntries :: "host \<Rightarrow> nat \<Rightarrow> string list \<Rightarrow> json list" where
  "lineEntries h j [] = []"
| "lineEntries h j (line # rest) =
     JObj [(''timestamp'', JStr (lineTime h j)), (''level'', JStr ''INFO''),
           (''message'', JStr line), (''isStructured'', JBool False)]
     # lineEntries h (Suc j) rest"

definition historyLogs :: "host \<Rightarrow> json \<Rightarrow> json list" where
  "historyLogs h d =
     (case get d ''data'' of
        Some (JArr xs) \<Rightarrow> xs
      | Some (JStr str) \<Rightarrow> lineEntries h 0 (filter (\<lambda>line. trim line \<noteq> []) (split str))
      | _ \<Rightarrow> [])"

text \<open>
  One call of the function mapped over the history entries; the counter has been
  incremented to \<open>n\<close> before the entry \<open>log\<close> is read. Reading \<open>log.timestamp\<close> throws
  on \<open>null\<close>.
\<close>

fun processEntry :: "host \<Rightarrow> nat \<Rightarrow> nat \<Rightarrow> json \<Rightarrow> error + log_entry" where
  "processEntry h index n JNull = Inl TypeError"
| "processEntry h index n entry =
     Inr \<lparr> ident = HistoryId (entryNow h index) index,
           lineNumber = n,
           timestamp = Some (orElse (get entry ''timestamp'') (JStr (entryTime h index))),
           level = Some (orElse (get entry ''level'') (JStr ''INFO'')),
           message = Some (orElse (get entry ''message'') entry),
           isStructured = structuredFlag entry,
           isHistory = True \<rparr>"

text \<open>
  \<open>historyLogs.map(...)\<close> with the counter threaded through: the result is the counter
  after the loop and either the records or the exception that stopped it.
\<close>

fun processHistory :: "host \<Rightarrow> nat \<Rightarrow> nat \<Rightarrow> json list \<Rightarrow> nat \<times> (error + log_entry list)" where
  "processHistory h index c [] = (c, Inr [])"
| "processHistory h index c (entry # rest) =
     (case processEntry h index (Suc c) entry of
        Inl e \<Rightarrow> (Suc c, Inl e)
      | Inr r \<Rightarrow>
          (case processHistory h (Suc index) (Suc c) rest of
             (c', Inl e) \<Rightarrow> (c', Inl e)
           | (c', Inr rs) \<Rightarrow> (c', Inr (r # rs))))"

definition structuredLog :: "host \<Rightarrow> nat \<Rightarrow> json \<Rightarrow> log_entry" where
  "structuredLog h n d =
     \<lparr> ident = LogId (frameNow h) (frameRandom h),
       lineNumber = n,
       timestamp = get d ''timestamp'',
       level = get d ''level'',
       message = get d ''message'',
       isStructured = structuredFlag d,
       isHistory = False \<rparr>"

definition typedLog :: "host \<Rightarrow> nat \<Rightarrow> json \<Rightarrow> log_entry" where
  "typedLog h n d =
     \<lparr> ident = LogId (frameNow h) (frameRandom h),
       lineNumber = n,
       timestamp = Some (orElse (get d ''timestamp'') (JStr (frameTime h))),
       level = Some (orElse (get d ''level'') (JStr ''INFO'')),
       message = Some (orElse (get d ''message'') (JStr (stringify h d))),
       isStructured = structuredFlag d,
       isHistory = False \<rparr>"

definition fallbackLog :: "host \<Rightarrow> nat \<Rightarrow> json \<Rightarrow> log_entry" where
  "fallbackLog h n d =
     \<lparr> ident = LogId (frameNow h) (frameRandom h),
       lineNumber = n,
       timestamp = Some (orElse (get d ''timestamp'') (JStr (frameTime h))),
       level = Some (orElse (get d ''level'') (JStr ''INFO'')),
       message = get d ''message'',
       isStructured = structuredFlag d,
       isHistory = False \<rparr>"

text \<open>Increment the counter and append the record made with the new counter value.\<close>

definition appendLog :: "(nat \<Rightarrow> log_entry) \<Rightarrow> app_state \<Rightarrow> app_state" where
  "appendLog mk s =
     s\<lparr> logCounterRef := Suc (logCounterRef s),
        logs := logs s @ [mk (Suc (logCounterRef s))] \<rparr>"

text \<open>
  \<open>ws.onmessage\<close> on the decoded frame. A frame that does not decode, and the frame
  \<open>null\<close> (reading \<open>data.type\<close> throws), end in the \<open>catch\<close> block, which only logs.
  An exception inside the history loop leaves the counter where the loop stopped and
  does not reach \<open>setLogs\<close>.
\<close>

fun onmessage :: "host \<Rightarrow> json option \<Rightarrow> app_state \<Rightarrow> app_state" where
  "onmessage h None s = s"
| "onmessage h (Some JNull) s = s"
| "onmessage h (Some d) s =
     (if get d ''type'' = Some (JStr ''HISTORY'') then
        (case processHistory h 0 (logCounterRef s) (historyLogs h d) of
           (c, Inl e) \<Rightarrow> s\<lparr> logCounterRef := c \<rparr>
         | (c, Inr processedHistory) \<Rightarrow> s\<lparr> logCounterRef := c, logs := processedHistory \<rparr>)
      else if truthyVal (get d ''timestamp'') \<and> truthyVal (get d ''level'')
              \<and> truthyVal (get d ''message'') then
        appendLog (\<lambda>n. structuredLog h n d) s
      else if get d ''type'' = Some (JStr ''log'') then
        appendLog (\<lambda>n. typedLog h n d) s
      else if truthyVal (get d ''message'') then
        appendLog (\<lambda>n. fallbackLog h n d) s
      else s)"

definition clearLogs :: "app_state \<Rightarrow> app_state" where
  "clearLogs s = s\<lparr> logs := [], logCounterRef := 0 \<rparr>"

section \<open>The filter\<close>









section \<open>The connection\<close>

text \<open>
  \<open>ws.close()\<close> starts the closing handshake: a socket that is connecting or open becomes
  \<open>CLOSING\<close>; on a socket that is closing or closed the call does nothing. The close
  event comes later, as an event of its own.
\<close>

fun live :: "readyState \<Rightarrow> bool" where
  "live CONNECTING = True"
| "live OPEN = True"
| "live CLOSING = False"
| "live CLOSED = False"

definition closeSocket :: "nat \<Rightarrow> app_state \<Rightarrow> app_state" where
  "closeSocket w s =
     (if w < length (sockets s) \<and> live (sockets s ! w)
      then s\<lparr> sockets := (sockets s)[w := CLOSING] \<rparr> else s)"

text \<open>\<open>const ws = new WebSocket(...); wsRef.current = ws\<close>\<close>

definition newWebSocket :: "app_state \<Rightarrow> app_state" where
  "newWebSocket s = s\<lparr> sockets := sockets s @ [CONNECTING], wsRef := Some (length (sockets s)) \<rparr>"

definition connectWebSocket :: "app_state \<Rightarrow> app_state" where
  "connectWebSocket s =
     (let s1 = (case wsRef s of None \<Rightarrow> s | Some w \<Rightarrow> closeSocket w s)
      in if isCleanedUp s1 then s1 else newWebSocket s1)"

definition onopen :: "app_state \<Rightarrow> app_state" where
  "onopen s = s\<lparr> isConnected := True, connectionStatus := ''Connected'' \<rparr>"

definition onerror :: "app_state \<Rightarrow> app_state" where
  "onerror s = s\<lparr> connectionStatus := ''Error'' \<rparr>"

text \<open>\<open>reconnectTimeoutRef.current = setTimeout(..., 3000)\<close>: a new pending timer.\<close>

definition setReconnectTimeout :: "app_state \<Rightarrow> app_state" where
  "setReconnectTimeout s =
     s\<lparr> timers := timers s @ [Pending], reconnectTimeoutRef := Some (Suc (length (timers s))) \<rparr>"

definition onclose :: "app_state \<Rightarrow> app_state" where
  "onclose s =
     (let s1 = s\<lparr> isConnected := False, connectionStatus := ''Disconnected'' \<rparr>
      in if \<not> isCleanedUp s1 then setReconnectTimeout s1 else s1)"

text \<open>The callback of the reconnect timer.\<close>

definition reconnect :: "app_state \<Rightarrow> app_state" where
  "reconnect s = connectWebSocket (s\<lparr> connectionStatus := ''Reconnecting...'' \<rparr>)"

text \<open>\<open>clearTimeout(t)\<close>: a pending timer with that id is canceled; otherwise nothing.\<close>

definition clearTimeout :: "nat \<Rightarrow> app_state \<Rightarrow> app_state" where
  "clearTimeout t s =
     (if 0 < t \<and> t \<le> length (timers s) \<and> timers s ! (t - 1) = Pending
      then s\<lparr> timers := (timers s)[t - 1 := Cleared] \<rparr> else s)"

text \<open>
  The cleanup function returned by the effect, statement by statement: set the flag;
  \<open>if (reconnectTimeoutRef.current) clearTimeout(reconnectTimeoutRef.current)\<close>;
  \<open>if (wsRef.current) { wsRef.current.close(); wsRef.current = null }\<close>.
\<close>

definition cancelRef :: "app_state \<Rightarrow> app_state" where
  "cancelRef s =
     (case reconnectTimeoutRef s of
        None \<Rightarrow> s
      | Some t \<Rightarrow> if t \<noteq> 0 then clearTimeout t s else s)"

definition closeRef :: "app_state \<Rightarrow> app_state" where
  "closeRef s =
     (case wsRef s of
        None \<Rightarrow> s
      | Some w \<Rightarrow> (closeSocket w s)\<lparr> wsRef := None \<rparr>)"

definition cleanup :: "app_state \<Rightarrow> app_state" where
  "cleanup s = closeRef (cancelRef (s\<lparr> isCleanedUp := True \<rparr>))"

section \<open>Events\<close>

text \<open>
  The model follows one run of the effect, from its mount to after its cleanup.
  Everything happens in the single event loop, one event after the other. The browser
  fires the open event on a connecting socket, a message on an open socket, the close
  event once on a socket that is not yet closed, an error on any socket, and a timeout
  while it is pending. \<open>ConnectRequest\<close> is a call of \<open>connectWebSocket\<close>;
  \<open>Teardown\<close> runs the cleanup; \<open>ClearLogs\<close> and \<open>SetFilter\<close> are the two actions of
  the page. The delay of the timer is not modelled: a timer is pending until it fires or
  is canceled.
\<close>

datatype event =
    ConnectRequest
  | SocketOpen nat
  | SocketMessage nat host "json option"
  | SocketError nat
  | SocketClose nat
  | TimerFired nat
  | Teardown
  | ClearLogs
  | SetFilter string

fun step :: "event \<Rightarrow> app_state \<Rightarrow> app_state" where
  "step ConnectRequest s = connectWebSocket s"
| "step (SocketOpen w) s =
     (if w < length (sockets s) \<and> sockets s ! w = CONNECTING
      then onopen (s\<lparr> sockets := (sockets s)[w := OPEN] \<rparr>) else s)"
| "step (SocketMessage w h frame) s =
     (if w < length (sockets s) \<and> sockets s ! w = OPEN then onmessage h frame s else s)"
| "step (SocketError w) s = (if w < length (sockets s) then onerror s else s)"
| "step (SocketClose w) s =
     (if w < length (sockets s) \<and> sockets s ! w \<noteq> CLOSED
      then onclose (s\<lparr> sockets := (sockets s)[w := CLOSED] \<rparr>) else s)"
| "step (TimerFired t) s =
     (if 0 < t \<and> t \<le> length (timers s) \<and> timers s ! (t - 1) = Pending
      then reconnect (s\<lparr> timers := (timers s)[t - 1 := Fired] \<rparr>) else s)"
| "step Teardown s = cleanup s"
| "step ClearLogs s = clearLogs s"
| "step (SetFilter x) s = s\<lparr> filterLevel := x \<rparr>"

fun run :: "event list \<Rightarrow> app_state \<Rightarrow> app_state" where
  "run [] s = s"
| "run (e # es) s = run es (step e s)"

text \<open>The state before the effect has run, and the effect: one connect request.\<close>

definition initial :: app_state where
  "initial =
     \<lparr> logs = [], isConnected = False, connectionStatus = ''Disconnecting...'',
       filterLevel = ''ALL'', wsRef = None, reconnectTimeoutRef = None, logCounterRef = 0,
       isCleanedUp = False, sockets = [], timers = [] \<rparr>"

definition mount :: app_state where
  "mount = connectWebSocket initial"

section \<open>Predicates of the statements\<close>

text \<open>A message event whose frame decodes to a value with \<open>type === 'HISTORY'\<close>.\<close>

fun historyFrame :: "event \<Rightarrow> bool" where
  "historyFrame (SocketMessage w h (Some d)) = (get d ''type'' = Some (JStr ''HISTORY''))"
| "historyFrame e = False"

text \<open>The records of the store are numbered from 1 and the counter is their number.\<close>

definition numbered :: "app_state \<Rightarrow> bool" where
  "numbered s =
     (map lineNumber (logs s) = [1 ..< Suc (length (logs s))] \<and> logCounterRef s = length (logs s))"

text \<open>
  Every socket that is connecting or open is the one \<open>wsRef\<close> holds, and \<open>wsRef\<close> holds
  a socket that has been created.
\<close>

definition singleLive :: "app_state \<Rightarrow> bool" where
  "singleLive s =
     ((\<forall>w < length (sockets s). live (sockets s ! w) \<longrightarrow> wsRef s = Some w)
      \<and> (\<forall>w. wsRef s = Some w \<longrightarrow> w < length (sockets s)))"

text \<open>
  The reconnect cycle while the effect is alive: either no timer is pending and every
  socket that is not closed is the one in \<open>wsRef\<close>, or every socket is closed and every
  pending timer is the one in \<open>reconnectTimeoutRef\<close>. After the cleanup no timer is
  pending and no socket is connecting or open.
\<close>

definition noPending :: "app_state \<Rightarrow> bool" where
  "noPending s = (\<forall>i < length (timers s). timers s ! i \<noteq> Pending)"

definition noLive :: "app_state \<Rightarrow> bool" where
  "noLive s = (\<forall>w < length (sockets s). \<not> live (sockets s ! w))"

definition allClosed :: "app_state \<Rightarrow> bool" where
  "allClosed s = (\<forall>w < length (sockets s). sockets s ! w = CLOSED)"

definition pendingIsRef :: "app_state \<Rightarrow> bool" where
  "pendingIsRef s =
     (\<forall>i < length (timers s). timers s ! i = Pending \<longrightarrow> reconnectTimeoutRef s = Some (Suc i))"

definition openIsRef :: "app_state \<Rightarrow> bool" where
  "openIsRef s = (\<forall>w < length (sockets s). sockets s ! w \<noteq> CLOSED \<longrightarrow> wsRef s = Some w)"

text \<open>The cleanup has run and no socket is connecting or open.\<close>

definition torn :: "app_state \<Rightarrow> bool" where
  "torn s = (isCleanedUp s \<and> noLive s)"

definition timerInv :: "app_state \<Rightarrow> bool" where
  "timerInv s =
     (if isCleanedUp s then noPending s \<and> noLive s
      else (noPending s \<and> openIsRef s) \<or> (allClosed s \<and> pendingIsRef s))"

text \<open>
  The specification of a string payload, in its own words: the text is a sequence of
  lines joined by line feeds, and a line is blank when it holds white space only.
\<close>

fun joinLines :: "string list \<Rightarrow> string" where
  "joinLines [] = []"
| "joinLines [l] = l"
| "joinLines (l # m # ls) = l @ newline # joinLines (m # ls)"

definition blank :: "string \<Rightarrow> bool" where
  "blank l = (\<exists>cs. set cs \<subseteq> set whiteSpace \<and> l = concat cs)"





section \<open>Sample inputs\<close>

text \<open>The upper case of the samples, which are ASCII texts: the letters \<open>a\<close> to \<open>z\<close> go
  to \<open>A\<close> to \<open>Z\<close> and every other byte stays, as \<open>toUpperCase\<close> does on such texts.\<close>

definition asciiUpperChar :: "char \<Rightarrow> char" where
  "asciiUpperChar c =
     (case map_of (zip ''abcdefghijklmnopqrstuvwxyz'' ''ABCDEFGHIJKLMNOPQRSTUVWXYZ'') c of
        None \<Rightarrow> c
      | Some u \<Rightarrow> u)"

definition asciiUpper :: "string \<Rightarrow> string" where
  "asciiUpper s = map asciiUpperChar s"

definition sampleHost :: host where
  "sampleHost =
     \<lparr> lineTime = (\<lambda>j. ''10:00:00''), entryNow = (\<lambda>i. 1000), entryTime = (\<lambda>i. ''10:00:01''),
       frameNow = 2000, frameRandom = 1 / 2, frameTime = ''10:00:02'',
       stringify = (\<lambda>v. ''{}'') \<rparr>"

text \<open>The frames \<open>{"type":"HISTORY","data":"a\nb\n\nc"}\<close>,
  \<open>{"timestamp":"12:00:00","level":"ERROR","message":"boom"}\<close> and
  \<open>{"type":"log","message":"hi"}\<close>, decoded.\<close>

definition frameHistory :: json where
  "frameHistory = JObj [(''type'', JStr ''HISTORY''), (''data'', JStr ''a\<newline>b\<newline>\<newline>c'')]"

definition frameStructured :: json where
  "frameStructured =
     JObj [(''timestamp'', JStr ''12:00:00''), (''level'', JStr ''ERROR''), (''message'', JStr ''boom'')]"

definition frameLog :: json where
  "frameLog = JObj [(''type'', JStr ''log''), (''message'', JStr ''hi'')]"

text \<open>\<open>{"type":"HISTORY","data":42}\<close>, decoded.\<close>

definition frameHistoryNumber :: json where
  "frameHistoryNumber = JObj [(''type'', JStr ''HISTORY''), (''data'', JNum 42)]"

text \<open>A connected component that has received one structured record.\<close>

definition sampleState :: app_state where
  "sampleState =
     run [ConnectRequest, SocketOpen 0, SocketMessage 0 sampleHost (Some frameStructured)] initial"

text \<open>The first socket has closed and the reconnect timer is pending.\<close>

definition waitingState :: app_state where
  "waitingState = run [SocketClose 0] mount"








section \<open>What each operation leaves unchanged\<close>

lemma closeSocket_fields:
  "wsRef (closeSocket w s) = wsRef s" "isCleanedUp (closeSocket w s) = isCleanedUp s"
  "length (sockets (closeSocket w s)) = length (sockets s)" "timers (closeSocket w s) = timers s"
  "reconnectTimeoutRef (closeSocket w s) = reconnectTimeoutRef s"
  "logs (closeSocket w s) = logs s" "logCounterRef (closeSocket w s) = logCounterRef s"
  "isConnected (closeSocket w s) = isConnected s" "connectionStatus (closeSocket w s) = connectionStatus s"
  "filterLevel (closeSocket w s) = filterLevel s"
  by (simp_all add: closeSocket_def)

lemma closeSocket_nth:
  "v < length (sockets s) \<Longrightarrow>
   sockets (closeSocket w s) ! v = (if v = w \<and> live (sockets s ! v) then CLOSING else sockets s ! v)"
  by (auto simp: closeSocket_def)

lemma clearTimeout_fields:
  "wsRef (clearTimeout t s) = wsRef s" "isCleanedUp (clearTimeout t s) = isCleanedUp s"
  "sockets (clearTimeout t s) = sockets s" "length (timers (clearTimeout t s)) = length (timers s)"
  "reconnectTimeoutRef (clearTimeout t s) = reconnectTimeoutRef s"
  "logs (clearTimeout t s) = logs s" "logCounterRef (clearTimeout t s) = logCounterRef s"
  "isConnected (clearTimeout t s) = isConnected s" "connectionStatus (clearTimeout t s) = connectionStatus s"
  "filterLevel (clearTimeout t s) = filterLevel s"
  by (simp_all add: clearTimeout_def)

lemma cancelRef_fields:
  "wsRef (cancelRef s) = wsRef s" "isCleanedUp (cancelRef s) = isCleanedUp s"
  "sockets (cancelRef s) = sockets s" "length (timers (cancelRef s)) = length (timers s)"
  "reconnectTimeoutRef (cancelRef s) = reconnectTimeoutRef s"
  "logs (cancelRef s) = logs s" "logCounterRef (cancelRef s) = logCounterRef s"
  "isConnected (cancelRef s) = isConnected s" "connectionStatus (cancelRef s) = connectionStatus s"
  "filterLevel (cancelRef s) = filterLevel s"
  by (simp_all add: cancelRef_def clearTimeout_fields split: option.splits)

lemma closeRef_fields:
  "wsRef (closeRef s) = None" "isCleanedUp (closeRef s) = isCleanedUp s"
  "length (sockets (closeRef s)) = length (sockets s)" "timers (closeRef s) = timers s"
  "reconnectTimeoutRef (closeRef s) = reconnectTimeoutRef s"
  "logs (closeRef s) = logs s" "logCounterRef (closeRef s) = logCounterRef s"
  "isConnected (closeRef s) = isConnected s" "connectionStatus (closeRef s) = connectionStatus s"
  "filterLevel (closeRef s) = filterLevel s"
  by (simp_all add: closeRef_def closeSocket_fields split: option.splits)

lemma cleanup_fields:
  "wsRef (cleanup s) = None" "isCleanedUp (cleanup s)"
  "length (sockets (cleanup s)) = length (sockets s)" "length (timers (cleanup s)) = length (timers s)"
  "reconnectTimeoutRef (cleanup s) = reconnectTimeoutRef s"
  "logs (cleanup s) = logs s" "logCounterRef (cleanup s) = logCounterRef s"
  "isConnected (cleanup s) = isConnected s" "connectionStatus (cleanup s) = connectionStatus s"
  "filterLevel (cleanup s) = filterLevel s"
  by (simp_all add: cleanup_def closeRef_fields cancelRef_fields)

lemma connectWebSocket_unfold:
  "connectWebSocket s =
     (if isCleanedUp s then (case wsRef s of None \<Rightarrow> s | Some w \<Rightarrow> closeSocket w s)
      else newWebSocket (case wsRef s of None \<Rightarrow> s | Some w \<Rightarrow> closeSocket w s))"
  by (simp add: connectWebSocket_def Let_def closeSocket_fields split: option.splits)

lemma onclose_fields:
  "sockets (onclose s) = sockets s" "wsRef (onclose s) = wsRef s"
  "isCleanedUp (onclose s) = isCleanedUp s" "logs (onclose s) = logs s"
  "logCounterRef (onclose s) = logCounterRef s" "filterLevel (onclose s) = filterLevel s"
  "isConnected (onclose s) = False" "connectionStatus (onclose s) = ''Disconnected''"
  by (simp_all add: onclose_def setReconnectTimeout_def Let_def)

lemma onmessage_fields:
  "sockets (onmessage h frame s) = sockets s" "wsRef (onmessage h frame s) = wsRef s"
  "timers (onmessage h frame s) = timers s" "isCleanedUp (onmessage h frame s) = isCleanedUp s"
  "reconnectTimeoutRef (onmessage h frame s) = reconnectTimeoutRef s"
  "isConnected (onmessage h frame s) = isConnected s"
  "connectionStatus (onmessage h frame s) = connectionStatus s"
  "filterLevel (onmessage h frame s) = filterLevel s"
proof -
  have "sockets (onmessage h frame s) = sockets s \<and> wsRef (onmessage h frame s) = wsRef s
    \<and> timers (onmessage h frame s) = timers s \<and> isCleanedUp (onmessage h frame s) = isCleanedUp s
    \<and> reconnectTimeoutRef (onmessage h frame s) = reconnectTimeoutRef s
    \<and> isConnected (onmessage h frame s) = isConnected s
    \<and> connectionStatus (onmessage h frame s) = connectionStatus s
    \<and> filterLevel (onmessage h frame s) = filterLevel s"
  proof (cases frame)
    case None
    then show ?thesis by simp
  next
    case (Some d)
    then show ?thesis
      by (cases d) (simp_all add: appendLog_def split: prod.splits sum.splits)
  qed
  then show "sockets (onmessage h frame s) = sockets s" "wsRef (onmessage h frame s) = wsRef s"
    "timers (onmessage h frame s) = timers s" "isCleanedUp (onmessage h frame s) = isCleanedUp s"
    "reconnectTimeoutRef (onmessage h frame s) = reconnectTimeoutRef s"
    "isConnected (onmessage h frame s) = isConnected s"
    "connectionStatus (onmessage h frame s) = connectionStatus s"
    "filterLevel (onmessage h frame s) = filterLevel s"
    by simp_all
qed

lemma newWebSocket_fields:
  "timers (newWebSocket s) = timers s" "isCleanedUp (newWebSocket s) = isCleanedUp s"
  "reconnectTimeoutRef (newWebSocket s) = reconnectTimeoutRef s"
  "logs (newWebSocket s) = logs s" "logCounterRef (newWebSocket s) = logCounterRef s"
  "isConnected (newWebSocket s) = isConnected s" "connectionStatus (newWebSocket s) = connectionStatus s"
  "filterLevel (newWebSocket s) = filterLevel s"
  by (simp_all add: newWebSocket_def)

lemma connectWebSocket_fields:
  "timers (connectWebSocket s) = timers s" "isCleanedUp (connectWebSocket s) = isCleanedUp s"
  "reconnectTimeoutRef (connectWebSocket s) = reconnectTimeoutRef s"
  "logs (connectWebSocket s) = logs s" "logCounterRef (connectWebSocket s) = logCounterRef s"
  "isConnected (connectWebSocket s) = isConnected s"
  "connectionStatus (connectWebSocket s) = connectionStatus s"
  "filterLevel (connectWebSocket s) = filterLevel s"
  by (simp_all add: connectWebSocket_unfold newWebSocket_fields closeSocket_fields split: option.splits)

section \<open>Lines and white space\<close>

lemma strip_no_match:
  "filter (\<lambda>w. w \<noteq> [] \<and> prefix w s) ws = [] \<Longrightarrow> strip ws s = s"
  by (simp add: strip.simps)

lemma strip_match:
  "filter (\<lambda>w. w \<noteq> [] \<and> prefix w s) ws = w # rest \<Longrightarrow>
   strip ws s = strip ws (drop (length w) s)"
  by (subst strip.simps) simp

text \<open>What is stripped is a sequence of elements of the list.\<close>

lemma strip_split: "\<exists>ps. set ps \<subseteq> set ws \<and> s = concat ps @ strip ws s"
proof (induction ws s rule: strip.induct)
  case (1 ws s)
  show ?case
  proof (cases "filter (\<lambda>w. w \<noteq> [] \<and> prefix w s) ws")
    case Nil
    then have "strip ws s = s" by (rule strip_no_match)
    then have "set [] \<subseteq> set ws \<and> s = concat [] @ strip ws s" by simp
    then show ?thesis by blast
  next
    case (Cons w rest)
    then have "w \<in> set (filter (\<lambda>w. w \<noteq> [] \<and> prefix w s) ws)" by simp
    then have w: "w \<in> set ws" "prefix w s" by simp_all
    from "1.IH" [OF Cons] obtain ps where
      ps: "set ps \<subseteq> set ws" "drop (length w) s = concat ps @ strip ws (drop (length w) s)"
      by blast
    from w(2) have "s = w @ drop (length w) s" by (auto simp: prefix_def)
    with ps(2) strip_match [OF Cons] have "s = concat (w # ps) @ strip ws s" by simp
    moreover from w(1) ps(1) have "set (w # ps) \<subseteq> set ws" by simp
    ultimately show ?thesis by blast
  qed
qed

lemma strip_empty_words:
  "strip ws s = [] \<Longrightarrow> \<exists>cs. set cs \<subseteq> set ws \<and> s = concat cs"
  using strip_split [of ws s] by auto

text \<open>When no element of the list is a prefix of another, a sequence of elements is
  stripped whole.\<close>

lemma strip_words:
  assumes pf: "\<forall>v \<in> set ws. \<forall>w \<in> set ws. prefix v w \<longrightarrow> v = w"
    and ne: "[] \<notin> set ws"
  shows "set cs \<subseteq> set ws \<Longrightarrow> strip ws (concat cs @ t) = strip ws t"
proof (induction cs)
  case Nil
  then show ?case by simp
next
  case (Cons c cs)
  then have c: "c \<in> set ws" and cs: "set cs \<subseteq> set ws" by simp_all
  let ?s = "concat (c # cs) @ t"
  from c ne have cne: "c \<noteq> []" by auto
  have pc: "prefix c ?s" by simp
  with c cne have "c \<in> set (filter (\<lambda>w. w \<noteq> [] \<and> prefix w ?s) ws)" by simp
  then have "filter (\<lambda>w. w \<noteq> [] \<and> prefix w ?s) ws \<noteq> []"
    by (metis empty_iff list.set(1))
  then obtain w rest where m: "filter (\<lambda>w. w \<noteq> [] \<and> prefix w ?s) ws = w # rest"
    by (meson list.exhaust)
  then have "w \<in> set (filter (\<lambda>w. w \<noteq> [] \<and> prefix w ?s) ws)" by simp
  then have w: "w \<in> set ws" "prefix w ?s" by simp_all
  from w(2) pc have "prefix w c \<or> prefix c w" by (rule prefix_same_cases)
  with pf w(1) c have "w = c" by blast
  with strip_match [OF m] have "strip ws ?s = strip ws (concat cs @ t)" by simp
  with Cons.IH [OF cs] show ?case by simp
qed

lemma whiteSpace_prefix_free:
  "\<forall>v \<in> set whiteSpace. \<forall>w \<in> set whiteSpace. prefix v w \<longrightarrow> v = w"
  by (simp add: whiteSpace_def)

lemma whiteSpace_nonempty: "[] \<notin> set whiteSpace"
  by (simp add: whiteSpace_def)

lemma strip_blank: "blank l \<Longrightarrow> strip whiteSpace l = []"
proof -
  assume "blank l"
  then obtain cs where cs: "set cs \<subseteq> set whiteSpace" "l = concat cs"
    by (auto simp: blank_def)
  from strip_words [OF whiteSpace_prefix_free whiteSpace_nonempty cs(1), of "[]"] cs(2)
  show ?thesis by (simp add: strip_no_match)
qed

lemma rev_words:
  "set cs \<subseteq> set (map rev ws) \<Longrightarrow> \<exists>ds. set ds \<subseteq> set ws \<and> rev (concat cs) = concat ds"
proof (induction cs)
  case Nil
  have "set [] \<subseteq> set ws \<and> rev (concat []) = concat []" by simp
  then show ?case by blast
next
  case (Cons c cs)
  then obtain ds where ds: "set ds \<subseteq> set ws" "rev (concat cs) = concat ds" by auto
  from Cons.prems obtain w where w: "w \<in> set ws" "c = rev w" by auto
  have "rev (concat (c # cs)) = concat (ds @ [w])" using ds(2) w(2) by simp
  moreover have "set (ds @ [w]) \<subseteq> set ws" using ds(1) w(1) by simp
  ultimately show ?case by blast
qed

text \<open>The line that \<open>trim\<close> empties is the line of white space only.\<close>

lemma trim_blank: "trim l = [] \<longleftrightarrow> blank l"
proof
  assume "blank l"
  then have "strip whiteSpace l = []" by (rule strip_blank)
  then show "trim l = []" by (simp add: trim_def strip_no_match)
next
  assume "trim l = []"
  then have "strip (map rev whiteSpace) (rev (strip whiteSpace l)) = []"
    by (simp add: trim_def)
  then obtain cs where cs: "set cs \<subseteq> set (map rev whiteSpace)"
    "rev (strip whiteSpace l) = concat cs"
    using strip_empty_words by blast
  from rev_words [OF cs(1)] obtain ds where
    ds: "set ds \<subseteq> set whiteSpace" "rev (concat cs) = concat ds" by blast
  from cs(2) have "strip whiteSpace l = rev (concat cs)" by (metis rev_rev_ident)
  with ds(2) have t: "strip whiteSpace l = concat ds" by simp
  from strip_split [of whiteSpace l] obtain ps where
    ps: "set ps \<subseteq> set whiteSpace" "l = concat ps @ strip whiteSpace l" by blast
  from ps(2) t have "l = concat (ps @ ds)" by simp
  moreover from ps(1) ds(1) have "set (ps @ ds) \<subseteq> set whiteSpace" by simp
  ultimately show "blank l" unfolding blank_def by blast
qed

text \<open>U+00A0 is white space, and the bytes of \<open>a\<close> with a grave accent (U+00E0) are not.\<close>

lemma trim_samples:
  "trim [CHR 0xC2, CHR 0xA0] = [] \<and> trim [CHR 0xC3, CHR 0xA0] = [CHR 0xC3, CHR 0xA0]
   \<and> trim ''  a b  '' = ''a b''"
  by (simp add: trim_def strip.simps whiteSpace_def)

text \<open>Splitting at the line feeds undoes joining with line feeds, and the other way
  round: every string is the join of the lines it splits into, and they hold no line
  feed.\<close>

lemma split_line: "newline \<notin> set l \<Longrightarrow> split l = [l]"
  by (induction l) auto

lemma split_append: "newline \<notin> set l \<Longrightarrow> split (l @ newline # t) = l # split t"
  by (induction l) auto

lemma split_joinLines:
  "ls \<noteq> [] \<Longrightarrow> \<forall>l \<in> set ls. newline \<notin> set l \<Longrightarrow> split (joinLines ls) = ls"
proof (induction ls rule: joinLines.induct)
  case 1
  then show ?case by simp
next
  case (2 l)
  then show ?case by (simp add: split_line)
next
  case (3 l m ls)
  then have "split (joinLines (m # ls)) = m # ls" by simp
  with "3.prems" show ?case by (simp add: split_append)
qed

lemma split_nonempty: "split s \<noteq> []"
  by (induction s) (auto split: list.splits)

lemma split_no_newline: "\<forall>l \<in> set (split s). newline \<notin> set l"
  by (induction s) (auto split: list.splits)

lemma joinLines_Cons: "ls \<noteq> [] \<Longrightarrow> joinLines (l # ls) = l @ newline # joinLines ls"
  by (cases ls) simp_all

lemma joinLines_split: "joinLines (split s) = s"
proof (induction s)
  case Nil
  then show ?case by simp
next
  case (Cons c s)
  show ?case
  proof (cases "c = newline")
    case True
    with Cons.IH split_nonempty [of s] show ?thesis by (simp add: joinLines_Cons)
  next
    case False
    from split_nonempty [of s] obtain l ls where sp: "split s = l # ls"
      by (cases "split s") auto
    show ?thesis
    proof (cases ls)
      case Nil
      with sp Cons.IH False show ?thesis by simp
    next
      case (Cons m ms)
      with sp Cons.IH False show ?thesis by simp
    qed
  qed
qed

section \<open>The log store\<close>

lemma processEntry_ok:
  "entry \<noteq> JNull \<Longrightarrow> \<exists>r. processEntry h i n entry = Inr r \<and> lineNumber r = n \<and> isHistory r"
  by (cases entry) simp_all

text \<open>A batch without \<open>null\<close> entries: the loop ends, it numbers the records from the
  counter on and leaves the counter at the last number.\<close>

lemma processHistory_ok:
  "JNull \<notin> set xs \<Longrightarrow>
   \<exists>rs. processHistory h i c xs = (c + length xs, Inr rs)
      \<and> map lineNumber rs = [Suc c ..< Suc (c + length xs)]
      \<and> list_all isHistory rs"
proof (induction xs arbitrary: i c)
  case Nil
  then show ?case by simp
next
  case (Cons x xs)
  from Cons.prems have x: "x \<noteq> JNull" and xs: "JNull \<notin> set xs" by auto
  from processEntry_ok [OF x] obtain r where
    r: "processEntry h i (Suc c) x = Inr r" "lineNumber r = Suc c" "isHistory r" by blast
  from Cons.IH [OF xs, of "Suc i" "Suc c"] obtain rs where
    rs: "processHistory h (Suc i) (Suc c) xs = (Suc c + length xs, Inr rs)"
        "map lineNumber rs = [Suc (Suc c) ..< Suc (Suc c + length xs)]"
        "list_all isHistory rs" by blast
  have "[Suc c ..< Suc (c + length (x # xs))] = Suc c # [Suc (Suc c) ..< Suc (c + length (x # xs))]"
    by (rule upt_conv_Cons) simp
  then have "[Suc c ..< Suc (c + length (x # xs))] = Suc c # [Suc (Suc c) ..< Suc (Suc c + length xs)]"
    by simp
  with r rs show ?case by simp
qed

lemma lineEntries_ok:
  "JNull \<notin> set (lineEntries h j ls) \<and> length (lineEntries h j ls) = length ls"
  by (induction ls arbitrary: j) auto

lemma onmessage_history:
  "get d ''type'' = Some (JStr ''HISTORY'') \<Longrightarrow>
   onmessage h (Some d) s =
     (case processHistory h 0 (logCounterRef s) (historyLogs h d) of
        (c, Inl e) \<Rightarrow> s\<lparr> logCounterRef := c \<rparr>
      | (c, Inr rs) \<Rightarrow> s\<lparr> logCounterRef := c, logs := rs \<rparr>)"
  by (cases d) simp_all

lemma onmessage_other:
  assumes "d \<noteq> JNull" and "get d ''type'' \<noteq> Some (JStr ''HISTORY'')"
  shows "onmessage h (Some d) s =
      (if truthyVal (get d ''timestamp'') \<and> truthyVal (get d ''level'') \<and> truthyVal (get d ''message'')
       then appendLog (\<lambda>n. structuredLog h n d) s
       else if get d ''type'' = Some (JStr ''log'') then appendLog (\<lambda>n. typedLog h n d) s
       else if truthyVal (get d ''message'') then appendLog (\<lambda>n. fallbackLog h n d) s
       else s)"
  using assms by (cases d) simp_all

lemma sample_trims:
  "trim ''a'' = ''a'' \<and> trim ''b'' = ''b'' \<and> trim [] = [] \<and> trim ''c'' = ''c''"
  by (simp add: trim_def strip.simps whiteSpace_def)

lemma sample_lines:
  "filter (\<lambda>line. trim line \<noteq> []) (split ''a\<newline>b\<newline>\<newline>c'') = [''a'', ''b'', ''c'']"
proof -
  have "split ''a\<newline>b\<newline>\<newline>c'' = [''a'', ''b'', [], ''c'']"
    by (simp add: newline_def)
  then show ?thesis using sample_trims by simp
qed

text \<open>
  C1. From an empty store with counter 0, the history frame \<open>"a\nb\n\nc"\<close>, the structured
  frame \<open>boom\<close>, the clear action and the frame \<open>{"type":"log","message":"hi"}\<close> leave
  exactly one record in the store: line number 1, level \<open>INFO\<close>, message \<open>hi\<close>, not
  history. This holds whatever the clock and the random generator return.
\<close>

theorem example_sequence:
  "logs (onmessage h4 (Some frameLog)
          (clearLogs
            (onmessage h2 (Some frameStructured)
              (onmessage h1 (Some frameHistory) (s\<lparr> logs := [], logCounterRef := 0 \<rparr>)))))
   = [\<lparr> ident = LogId (frameNow h4) (frameRandom h4), lineNumber = 1,
        timestamp = Some (JStr (frameTime h4)), level = Some (JStr ''INFO''),
        message = Some (JStr ''hi''), isStructured = JBool True, isHistory = False \<rparr>]"
  by (simp add: frameLog_def clearLogs_def appendLog_def typedLog_def)

text \<open>The store of that sequence after the history frame and before the clear action.\<close>

lemma example_history:
  "map lineNumber (logs (onmessage h1 (Some frameHistory) (s\<lparr> logs := [], logCounterRef := 0 \<rparr>)))
     = [1, 2, 3]
   \<and> map message (logs (onmessage h1 (Some frameHistory) (s\<lparr> logs := [], logCounterRef := 0 \<rparr>)))
     = [Some (JStr ''a''), Some (JStr ''b''), Some (JStr ''c'')]
   \<and> map isHistory (logs (onmessage h1 (Some frameHistory) (s\<lparr> logs := [], logCounterRef := 0 \<rparr>)))
     = [True, True, True]
   \<and> logCounterRef (onmessage h1 (Some frameHistory) (s\<lparr> logs := [], logCounterRef := 0 \<rparr>)) = 3"
  by (simp add: frameHistory_def historyLogs_def sample_lines eval_nat_numeral del: split.simps)

lemma example_before_clear:
  "map lineNumber (logs (onmessage h2 (Some frameStructured)
      (onmessage h1 (Some frameHistory) (s\<lparr> logs := [], logCounterRef := 0 \<rparr>)))) = [1, 2, 3, 4]"
  using example_history [of h1 s]
  by (simp add: frameStructured_def appendLog_def structuredLog_def)

text \<open>
  C2. A history frame whose payload is an array of \<open>N\<close> entries, none of them \<open>null\<close>, or
  a string made of lines joined by line feeds of which \<open>N\<close> are not blank, replaces the
  store by \<open>N\<close> history records numbered \<open>k + 1\<close> to \<open>k + N\<close>, where \<open>k\<close> is the counter
  before the frame; the counter is \<open>k + N\<close> afterwards, not zero. Every string is such a
  join of lines (\<open>joinLines_split\<close>, \<open>split_nonempty\<close>, \<open>split_no_newline\<close>).
\<close>

theorem history_numbers:
  assumes type: "get d ''type'' = Some (JStr ''HISTORY'')"
    and payload:
      "(get d ''data'' = Some (JArr xs) \<and> JNull \<notin> set xs \<and> N = length xs) \<or>
       (get d ''data'' = Some (JStr (joinLines ls)) \<and> ls \<noteq> []
          \<and> (\<forall>l \<in> set ls. newline \<notin> set l)
          \<and> N = length (filter (\<lambda>l. \<not> blank l) ls))"
  shows "length (logs (onmessage h (Some d) s)) = N
       \<and> map lineNumber (logs (onmessage h (Some d) s))
           = [logCounterRef s + 1 ..< logCounterRef s + N + 1]
       \<and> list_all isHistory (logs (onmessage h (Some d) s))
       \<and> logCounterRef (onmessage h (Some d) s) = logCounterRef s + N"
proof -
  have ok: "JNull \<notin> set (historyLogs h d) \<and> length (historyLogs h d) = N"
    using payload
  proof
    assume "get d ''data'' = Some (JArr xs) \<and> JNull \<notin> set xs \<and> N = length xs"
    then show ?thesis by (simp add: historyLogs_def)
  next
    assume a: "get d ''data'' = Some (JStr (joinLines ls)) \<and> ls \<noteq> []
          \<and> (\<forall>l \<in> set ls. newline \<notin> set l)
          \<and> N = length (filter (\<lambda>l. \<not> blank l) ls)"
    then have "split (joinLines ls) = ls" by (simp add: split_joinLines)
    moreover have "filter (\<lambda>line. trim line \<noteq> []) ls = filter (\<lambda>l. \<not> blank l) ls"
      by (simp add: trim_blank)
    ultimately show ?thesis
      using a by (simp add: historyLogs_def lineEntries_ok)
  qed
  then obtain rs where
    rs: "processHistory h 0 (logCounterRef s) (historyLogs h d) = (logCounterRef s + N, Inr rs)"
        "map lineNumber rs = [Suc (logCounterRef s) ..< Suc (logCounterRef s + N)]"
        "list_all isHistory rs"
    using processHistory_ok [of "historyLogs h d" h 0 "logCounterRef s"] by auto
  from rs(2) have "length rs = N"
    by (metis length_map length_upt diff_Suc_Suc add_diff_cancel_left')
  with rs show ?thesis
    by (simp add: onmessage_history [OF type])
qed

lemma sample_blank:
  "\<not> blank ''a'' \<and> \<not> blank ''b'' \<and> blank [] \<and> \<not> blank ''c''
   \<and> blank [CHR 0x20, CHR 0xC2, CHR 0xA0]"
proof -
  have "trim [CHR 0x20, CHR 0xC2, CHR 0xA0] = []"
    by (simp add: trim_def strip.simps whiteSpace_def)
  with sample_trims show ?thesis
    by (simp add: trim_blank [symmetric])
qed

theorem history_numbers_witness:
  "get frameHistory ''type'' = Some (JStr ''HISTORY'')
   \<and> get frameHistory ''data'' = Some (JStr (joinLines [''a'', ''b'', [], ''c'']))
   \<and> [''a'', ''b'', [], ''c''] \<noteq> []
   \<and> list_all (\<lambda>l. newline \<notin> set l) [''a'', ''b'', [], ''c'']
   \<and> 3 = length (filter (\<lambda>l. \<not> blank l) [''a'', ''b'', [], ''c''])
   \<and> map lineNumber (logs (onmessage sampleHost (Some frameHistory) sampleState)) = [2, 3, 4]
   \<and> logCounterRef (onmessage sampleHost (Some frameHistory) sampleState) = 4"
proof -
  let ?ls = "[''a'', ''b'', [], ''c'']"
  have t: "get frameHistory ''type'' = Some (JStr ''HISTORY'')"
    by (simp add: frameHistory_def)
  have p: "get frameHistory ''data'' = Some (JStr (joinLines ?ls))"
    by (simp add: frameHistory_def newline_def)
  have e: "?ls \<noteq> []" by simp
  have nl: "\<forall>l \<in> set ?ls. newline \<notin> set l"
    by (simp add: newline_def)
  have n: "3 = length (filter (\<lambda>l. \<not> blank l) ?ls)"
    using sample_blank by simp
  have k: "logCounterRef sampleState = 1"
    by (simp add: sampleState_def initial_def connectWebSocket_def newWebSocket_def Let_def
        onopen_def frameStructured_def appendLog_def)
  have u: "[2 ..< 5] = [2, 3, 4::nat]"
    by (simp add: upt_rec)
  from p e nl n have "(get frameHistory ''data'' = Some (JArr []) \<and> JNull \<notin> set []
        \<and> 3 = length ([] :: json list))
     \<or> (get frameHistory ''data'' = Some (JStr (joinLines ?ls)) \<and> ?ls \<noteq> []
          \<and> (\<forall>l \<in> set ?ls. newline \<notin> set l)
          \<and> 3 = length (filter (\<lambda>l. \<not> blank l) ?ls))"
    by blast
  from history_numbers [OF t this, of sampleHost sampleState]
  have "map lineNumber (logs (onmessage sampleHost (Some frameHistory) sampleState))
          = [logCounterRef sampleState + 1 ..< logCounterRef sampleState + 3 + 1]"
    and "logCounterRef (onmessage sampleHost (Some frameHistory) sampleState)
          = logCounterRef sampleState + 3"
    by blast+
  then have "map lineNumber (logs (onmessage sampleHost (Some frameHistory) sampleState)) = [2, 3, 4]"
    and "logCounterRef (onmessage sampleHost (Some frameHistory) sampleState) = 4"
    by (simp_all only: k u one_add_one numeral_plus_numeral numeral_One [symmetric]
        add_numeral_left semiring_norm)
  moreover have "list_all (\<lambda>l. newline \<notin> set l) ?ls"
    by (simp add: newline_def)
  ultimately show ?thesis using t p e n by blast
qed

text \<open>
  C10. A frame that decodes to a value with type \<open>HISTORY\<close> whose \<open>data\<close> is neither an
  array nor a string (or is absent) empties the store and changes nothing else; the
  counter keeps its value.
\<close>

theorem history_other_payload:
  assumes "get d ''type'' = Some (JStr ''HISTORY'')"
    and "\<not> isArray (get d ''data'')" and "\<not> isString (get d ''data'')"
  shows "onmessage h (Some d) s = s\<lparr> logs := [] \<rparr>"
proof -
  have "historyLogs h d = []"
    using assms(2,3) by (auto simp: historyLogs_def split: option.splits json.splits)
  then show ?thesis
    by (simp add: onmessage_history [OF assms(1)])
qed

theorem history_other_payload_witness:
  "get frameHistoryNumber ''type'' = Some (JStr ''HISTORY'')
   \<and> \<not> isArray (get frameHistoryNumber ''data'') \<and> \<not> isString (get frameHistoryNumber ''data'')
   \<and> logs (onmessage sampleHost (Some frameHistoryNumber) sampleState) = []
   \<and> logCounterRef (onmessage sampleHost (Some frameHistoryNumber) sampleState)
       = logCounterRef sampleState"
proof -
  have a: "get frameHistoryNumber ''type'' = Some (JStr ''HISTORY'')"
    and b: "\<not> isArray (get frameHistoryNumber ''data'')"
    and c: "\<not> isString (get frameHistoryNumber ''data'')"
    by (simp_all add: frameHistoryNumber_def)
  from history_other_payload [OF a b c, of sampleHost sampleState] a b c
  show ?thesis by simp
qed

section \<open>Clearing the store\<close>

lemma appendLog_numbered:
  "numbered s \<Longrightarrow> (\<And>n. lineNumber (mk n) = n) \<Longrightarrow> numbered (appendLog mk s)"
  by (simp add: numbered_def appendLog_def)

lemma onmessage_numbered:
  assumes "numbered s" and "\<not> historyFrame (SocketMessage w h frame)"
  shows "numbered (onmessage h frame s)"
proof (cases frame)
  case None
  with assms show ?thesis by simp
next
  case (Some d)
  with assms(2) have nh: "get d ''type'' \<noteq> Some (JStr ''HISTORY'')" by simp
  show ?thesis
  proof (cases "d = JNull")
    case True
    with Some assms(1) show ?thesis by simp
  next
    case False
    from onmessage_other [OF False nh, of h s] Some assms(1) show ?thesis
      by (simp add: appendLog_numbered structuredLog_def typedLog_def fallbackLog_def)
  qed
qed

lemma numbered_same_store:
  "numbered s \<Longrightarrow> logs t = logs s \<Longrightarrow> logCounterRef t = logCounterRef s \<Longrightarrow> numbered t"
  by (simp add: numbered_def)

lemma step_store:
  "(\<forall>w h frame. e \<noteq> SocketMessage w h frame) \<Longrightarrow> e \<noteq> ClearLogs \<Longrightarrow>
   logs (step e s) = logs s \<and> logCounterRef (step e s) = logCounterRef s"
  by (cases e)
     (simp_all add: connectWebSocket_fields cleanup_fields onopen_def onerror_def onclose_fields
        reconnect_def)

lemma step_numbered:
  assumes "numbered s" and "\<not> historyFrame e"
  shows "numbered (step e s)"
proof (cases e)
  case (SocketMessage w h frame)
  with assms onmessage_numbered [of s w h frame] show ?thesis by simp
next
  case ClearLogs
  then show ?thesis by (simp add: numbered_def clearLogs_def)
qed (use assms(1) in \<open>auto intro!: numbered_same_store [of s] simp: step_store simp del: step.simps\<close>)

lemma run_numbered:
  "numbered s \<Longrightarrow> list_all (\<lambda>e. \<not> historyFrame e) es \<Longrightarrow> numbered (run es s)"
  by (induction es arbitrary: s) (simp_all add: step_numbered)

text \<open>
  C3. The clear action empties the store and sets the counter to zero, and after it, as
  long as no history frame has been handled, the first record of the store (the first
  one appended) has line number 1, whatever other events have happened in between.
\<close>

theorem clear_restarts_numbering:
  assumes "list_all (\<lambda>e. \<not> historyFrame e) es"
  shows "logs (clearLogs s) = [] \<and> logCounterRef (clearLogs s) = 0
       \<and> (\<forall>r rs. logs (run es (clearLogs s)) = r # rs \<longrightarrow> lineNumber r = 1)"
proof -
  have "numbered (clearLogs s)" by (simp add: numbered_def clearLogs_def)
  then have n: "numbered (run es (clearLogs s))" using assms by (rule run_numbered)
  have "lineNumber r = 1" if "logs (run es (clearLogs s)) = r # rs" for r rs
  proof -
    from n that have "map lineNumber (r # rs) = [1 ..< Suc (length (r # rs))]"
      by (simp only: numbered_def)
    moreover have "[1 ..< Suc (length (r # rs))] = 1 # [Suc 1 ..< Suc (length (r # rs))]"
      by (rule upt_conv_Cons) simp
    ultimately show ?thesis by (simp only: list.map list.inject)
  qed
  then show ?thesis by (simp add: clearLogs_def)
qed

lemma sampleState_store:
  "logs sampleState
     = [\<lparr> ident = LogId 2000 (1 / 2), lineNumber = 1, timestamp = Some (JStr ''12:00:00''),
          level = Some (JStr ''ERROR''), message = Some (JStr ''boom''),
          isStructured = JBool True, isHistory = False \<rparr>]
   \<and> logCounterRef sampleState = 1 \<and> sockets sampleState = [OPEN]"
  by (simp add: sampleState_def initial_def connectWebSocket_def newWebSocket_def Let_def
      onopen_def frameStructured_def appendLog_def structuredLog_def sampleHost_def)

theorem clear_restarts_numbering_witness:
  "list_all (\<lambda>e. \<not> historyFrame e) [SocketError 0, SocketMessage 0 sampleHost (Some frameLog)]
   \<and> logs sampleState \<noteq> []
   \<and> logs (clearLogs sampleState) = []
   \<and> (\<exists>r rs. logs (run [SocketError 0, SocketMessage 0 sampleHost (Some frameLog)]
                        (clearLogs sampleState)) = r # rs
              \<and> message r = Some (JStr ''hi'') \<and> lineNumber r = 1)"
proof -
  let ?es = "[SocketError 0, SocketMessage 0 sampleHost (Some frameLog)]"
  have h: "list_all (\<lambda>e. \<not> historyFrame e) ?es"
    by (simp add: frameLog_def)
  have "\<exists>r rs. logs (run ?es (clearLogs sampleState)) = r # rs \<and> message r = Some (JStr ''hi'')"
    using sampleState_store
    by (simp add: clearLogs_def onerror_def frameLog_def appendLog_def typedLog_def)
  with clear_restarts_numbering [OF h, of sampleState] sampleState_store h
  show ?thesis by auto
qed

text \<open>A history frame between the clear action and the next appended record moves the
  counter on: after the three history lines the record appended by the frame
  \<open>{"type":"log","message":"hi"}\<close>, the first one appended since the clear action, has
  line number 4.\<close>

theorem append_after_history:
  "map lineNumber (logs (run [SocketMessage 0 sampleHost (Some frameHistory),
                              SocketMessage 0 sampleHost (Some frameLog)] (clearLogs sampleState)))
     = [1, 2, 3, 4]
   \<and> map isHistory (logs (run [SocketMessage 0 sampleHost (Some frameHistory),
                                SocketMessage 0 sampleHost (Some frameLog)] (clearLogs sampleState)))
     = [True, True, True, False]"
proof -
  have c: "clearLogs sampleState = sampleState\<lparr> logs := [], logCounterRef := 0 \<rparr>"
    by (simp add: clearLogs_def)
  have o: "sockets (sampleState\<lparr> logs := [], logCounterRef := 0 \<rparr>) = [OPEN]"
    using sampleState_store by simp
  let ?h = "onmessage sampleHost (Some frameHistory) (sampleState\<lparr> logs := [], logCounterRef := 0 \<rparr>)"
  have r: "run [SocketMessage 0 sampleHost (Some frameHistory),
                SocketMessage 0 sampleHost (Some frameLog)] (clearLogs sampleState)
           = onmessage sampleHost (Some frameLog) ?h"
    using o by (simp add: c onmessage_fields)
  from example_history [of sampleHost sampleState] show ?thesis
    unfolding r by (simp add: frameLog_def appendLog_def typedLog_def)
qed

section \<open>One transport at a time\<close>

lemma filter_nth_length:
  "length (filter P xs) = length (filter (\<lambda>i. P (xs ! i)) [0 ..< length xs])"
proof -
  have "filter P (map ((!) xs) [0 ..< length xs]) = map ((!) xs) (filter (\<lambda>i. P (xs ! i)) [0 ..< length xs])"
    by (simp add: filter_map comp_def)
  then have "filter P xs = map ((!) xs) (filter (\<lambda>i. P (xs ! i)) [0 ..< length xs])"
    by (simp add: map_nth)
  then show ?thesis by (metis length_map)
qed

lemma at_most_one:
  assumes "\<forall>i < length xs. P (xs ! i) \<longrightarrow> r = Some i"
  shows "length (filter P xs) \<le> 1"
proof -
  let ?I = "filter (\<lambda>i. P (xs ! i)) [0 ..< length xs]"
  have "distinct ?I" by simp
  then have l: "length ?I = card (set ?I)" by (rule distinct_card [symmetric])
  have "set ?I \<subseteq> set_option r" using assms by auto
  then have "card (set ?I) \<le> card (set_option r)"
    by (intro card_mono) auto
  also have "\<dots> \<le> 1" by (cases r) simp_all
  finally have "length ?I \<le> 1" by (simp only: l)
  then show ?thesis by (simp only: filter_nth_length [of P xs])
qed

lemma singleLiveI:
  assumes "\<And>w. w < length (sockets s) \<Longrightarrow> live (sockets s ! w) \<Longrightarrow> wsRef s = Some w"
    and "\<And>w. wsRef s = Some w \<Longrightarrow> w < length (sockets s)"
  shows "singleLive s"
  unfolding singleLive_def using assms by blast

lemma singleLive_ref:
  "singleLive s \<Longrightarrow> w < length (sockets s) \<Longrightarrow> live (sockets s ! w) \<Longrightarrow> wsRef s = Some w"
  unfolding singleLive_def by blast

lemma singleLive_bound: "singleLive s \<Longrightarrow> wsRef s = Some w \<Longrightarrow> w < length (sockets s)"
  unfolding singleLive_def by blast

text \<open>A step that keeps the reference and makes no socket live keeps the invariant.\<close>

lemma singleLive_mono:
  assumes inv: "singleLive s"
    and ref: "wsRef t = wsRef s"
    and len: "length (sockets t) = length (sockets s)"
    and sub: "\<And>v. v < length (sockets s) \<Longrightarrow> live (sockets t ! v) \<Longrightarrow> live (sockets s ! v)"
  shows "singleLive t"
proof (rule singleLiveI)
  fix w assume "w < length (sockets t)" and "live (sockets t ! w)"
  then have "w < length (sockets s)" and "live (sockets s ! w)"
    using len sub by auto
  with inv have "wsRef s = Some w" by (rule singleLive_ref)
  with ref show "wsRef t = Some w" by simp
next
  fix w assume "wsRef t = Some w"
  with ref have "wsRef s = Some w" by simp
  with inv have "w < length (sockets s)" by (rule singleLive_bound)
  with len show "w < length (sockets t)" by simp
qed

lemma singleLive_closeSocket:
  assumes "singleLive s" shows "singleLive (closeSocket w s)"
  using assms
proof (rule singleLive_mono)
  fix v assume "v < length (sockets s)" and "live (sockets (closeSocket w s) ! v)"
  then show "live (sockets s ! v)"
    by (simp add: closeSocket_nth split: if_splits)
qed (simp_all add: closeSocket_fields)

text \<open>After \<open>close()\<close> on the referenced socket no socket is live.\<close>

lemma closeSocket_none_live:
  assumes inv: "singleLive s" and ref: "wsRef s = Some w" and v: "v < length (sockets s)"
  shows "\<not> live (sockets (closeSocket w s) ! v)"
proof (cases "live (sockets s ! v)")
  case True
  with inv v have "wsRef s = Some v" by (rule singleLive_ref)
  with ref have "v = w" by simp
  with True v show ?thesis by (simp add: closeSocket_nth)
next
  case False
  with v show ?thesis by (simp add: closeSocket_nth)
qed

lemma singleLive_new:
  assumes "\<And>v. v < length (sockets s) \<Longrightarrow> \<not> live (sockets s ! v)"
  shows "singleLive (newWebSocket s)"
proof (rule singleLiveI)
  fix w assume w: "w < length (sockets (newWebSocket s))" and l: "live (sockets (newWebSocket s) ! w)"
  show "wsRef (newWebSocket s) = Some w"
  proof (cases "w < length (sockets s)")
    case True
    with l have "live (sockets s ! w)" by (simp add: newWebSocket_def nth_append)
    with assms [OF True] show ?thesis by simp
  next
    case False
    with w show ?thesis by (simp add: newWebSocket_def)
  qed
next
  fix w assume "wsRef (newWebSocket s) = Some w"
  then show "w < length (sockets (newWebSocket s))" by (simp add: newWebSocket_def)
qed

lemma singleLive_connect:
  assumes inv: "singleLive s" shows "singleLive (connectWebSocket s)"
proof (cases "wsRef s")
  case None
  have "\<not> live (sockets s ! v)" if "v < length (sockets s)" for v
  proof
    assume "live (sockets s ! v)"
    with inv that have "wsRef s = Some v" by (rule singleLive_ref)
    with None show False by simp
  qed
  then have "singleLive (newWebSocket s)" by (rule singleLive_new)
  with None inv show ?thesis by (simp add: connectWebSocket_unfold)
next
  case (Some w)
  have c: "singleLive (closeSocket w s)" using inv by (rule singleLive_closeSocket)
  have "\<not> live (sockets (closeSocket w s) ! v)" if "v < length (sockets (closeSocket w s))" for v
  proof -
    from that have "v < length (sockets s)" by (simp add: closeSocket_fields)
    with inv Some show ?thesis by (rule closeSocket_none_live)
  qed
  then have "singleLive (newWebSocket (closeSocket w s))" by (rule singleLive_new)
  with Some c show ?thesis by (simp add: connectWebSocket_unfold)
qed

text \<open>After the reference has been closed and cleared no socket is live.\<close>

lemma closeRef_none_live:
  assumes inv: "singleLive s" and v: "v < length (sockets s)"
  shows "\<not> live (sockets (closeRef s) ! v)"
proof (cases "wsRef s")
  case None
  have "\<not> live (sockets s ! v)"
  proof
    assume "live (sockets s ! v)"
    with inv v have "wsRef s = Some v" by (rule singleLive_ref)
    with None show False by simp
  qed
  with None show ?thesis by (simp add: closeRef_def)
next
  case (Some w)
  from inv Some v have "\<not> live (sockets (closeSocket w s) ! v)" by (rule closeSocket_none_live)
  with Some show ?thesis by (simp add: closeRef_def)
qed

lemma singleLive_fields:
  "wsRef t = wsRef s \<Longrightarrow> sockets t = sockets s \<Longrightarrow> singleLive t = singleLive s"
  by (simp add: singleLive_def)

lemma cleanup_none_live:
  assumes inv: "singleLive s" and v: "v < length (sockets s)"
  shows "\<not> live (sockets (cleanup s) ! v)"
proof -
  let ?c = "cancelRef (s\<lparr> isCleanedUp := True \<rparr>)"
  have "singleLive ?c = singleLive s"
    by (rule singleLive_fields) (simp_all add: cancelRef_fields)
  with inv have "singleLive ?c" by simp
  moreover from v have "v < length (sockets ?c)" by (simp add: cancelRef_fields)
  ultimately have "\<not> live (sockets (closeRef ?c) ! v)" by (rule closeRef_none_live)
  then show ?thesis by (simp add: cleanup_def)
qed

lemma singleLive_cleanup:
  assumes inv: "singleLive s" shows "singleLive (cleanup s)"
proof (rule singleLiveI)
  fix w assume "w < length (sockets (cleanup s))" and l: "live (sockets (cleanup s) ! w)"
  then have "w < length (sockets s)" by (simp add: cleanup_fields)
  with inv have "\<not> live (sockets (cleanup s) ! w)" by (rule cleanup_none_live)
  with l show "wsRef (cleanup s) = Some w" by simp
next
  fix w assume "wsRef (cleanup s) = Some w"
  then show "w < length (sockets (cleanup s))" by (simp add: cleanup_fields)
qed

lemma singleLive_step:
  assumes inv: "singleLive s" shows "singleLive (step e s)"
proof (cases e)
  case ConnectRequest
  with inv show ?thesis by (simp add: singleLive_connect)
next
  case (SocketOpen w)
  show ?thesis
  proof (cases "w < length (sockets s) \<and> sockets s ! w = CONNECTING")
    case True
    from inv have "singleLive (onopen (s\<lparr> sockets := (sockets s)[w := OPEN] \<rparr>))"
    proof (rule singleLive_mono)
      fix v assume "v < length (sockets s)"
        and "live (sockets (onopen (s\<lparr> sockets := (sockets s)[w := OPEN] \<rparr>)) ! v)"
      with True show "live (sockets s ! v)"
        by (cases "v = w") (simp_all add: onopen_def)
    qed (simp_all add: onopen_def)
    with SocketOpen True show ?thesis by simp
  next
    case False
    with SocketOpen inv show ?thesis by auto
  qed
next
  case (SocketMessage w h frame)
  have "singleLive (onmessage h frame s) = singleLive s"
    by (rule singleLive_fields) (simp_all add: onmessage_fields)
  with SocketMessage inv show ?thesis by simp
next
  case (SocketError w)
  have "singleLive (onerror s) = singleLive s"
    by (rule singleLive_fields) (simp_all add: onerror_def)
  with SocketError inv show ?thesis by simp
next
  case (SocketClose w)
  show ?thesis
  proof (cases "w < length (sockets s) \<and> sockets s ! w \<noteq> CLOSED")
    case True
    from inv have "singleLive (onclose (s\<lparr> sockets := (sockets s)[w := CLOSED] \<rparr>))"
    proof (rule singleLive_mono)
      fix v assume "v < length (sockets s)"
        and "live (sockets (onclose (s\<lparr> sockets := (sockets s)[w := CLOSED] \<rparr>)) ! v)"
      then show "live (sockets s ! v)"
        by (cases "v = w") (simp_all add: onclose_fields)
    qed (simp_all add: onclose_fields)
    with SocketClose True show ?thesis by simp
  next
    case False
    with SocketClose inv show ?thesis by auto
  qed
next
  case (TimerFired t)
  let ?s = "s\<lparr> timers := (timers s)[t - 1 := Fired], connectionStatus := ''Reconnecting...'' \<rparr>"
  have "singleLive ?s = singleLive s"
    by (rule singleLive_fields) simp_all
  with inv have "singleLive ?s" by simp
  then have "singleLive (connectWebSocket ?s)" by (rule singleLive_connect)
  with TimerFired inv show ?thesis by (simp add: reconnect_def)
next
  case Teardown
  with inv show ?thesis by (simp add: singleLive_cleanup)
next
  case ClearLogs
  have "singleLive (clearLogs s) = singleLive s"
    by (rule singleLive_fields) (simp_all add: clearLogs_def)
  with ClearLogs inv show ?thesis by simp
next
  case (SetFilter x)
  have "singleLive (s\<lparr> filterLevel := x \<rparr>) = singleLive s"
    by (rule singleLive_fields) simp_all
  with SetFilter inv show ?thesis by simp
qed

lemma singleLive_run: "singleLive s \<Longrightarrow> singleLive (run es s)"
  by (induction es arbitrary: s) (simp_all add: singleLive_step)

lemma singleLive_initial: "singleLive initial"
  by (rule singleLiveI) (simp_all add: initial_def)

text \<open>
  C4. Whatever events have happened since the initial state (connect requests at any
  moment among them), at most one socket is connecting or open, and a connect request
  leaves the socket it found in \<open>wsRef\<close> closing or closed: it calls \<open>close()\<close> on it
  before it creates the new one.
\<close>

theorem one_open_transport:
  "length (filter live (sockets (run es initial))) \<le> 1
   \<and> (\<forall>w. wsRef (run es initial) = Some w \<longrightarrow>
         \<not> live (sockets (connectWebSocket (run es initial)) ! w))"
proof -
  let ?s = "run es initial"
  have inv: "singleLive ?s" using singleLive_initial by (rule singleLive_run)
  have "\<forall>i < length (sockets ?s). live (sockets ?s ! i) \<longrightarrow> wsRef ?s = Some i"
    using singleLive_ref [OF inv] by blast
  then have a: "length (filter live (sockets ?s)) \<le> 1" by (rule at_most_one)
  have b: "\<not> live (sockets (connectWebSocket ?s) ! w)" if ref: "wsRef ?s = Some w" for w
  proof -
    from inv ref have w: "w < length (sockets ?s)" by (rule singleLive_bound)
    with inv ref have "\<not> live (sockets (closeSocket w ?s) ! w)" by (rule closeSocket_none_live)
    with ref w show ?thesis
      by (simp add: connectWebSocket_unfold newWebSocket_def nth_append closeSocket_fields)
  qed
  from a b show ?thesis by blast
qed

lemma two_connects: "sockets (run [ConnectRequest, ConnectRequest] initial) = [CLOSING, CONNECTING]
   \<and> wsRef (run [ConnectRequest, ConnectRequest] initial) = Some 1"
  by (simp add: initial_def connectWebSocket_def newWebSocket_def closeSocket_def Let_def)

theorem one_open_transport_witness:
  "wsRef (run [ConnectRequest, ConnectRequest] initial) = Some 1
   \<and> length (filter live (sockets (run [ConnectRequest, ConnectRequest] initial))) \<le> 1
   \<and> \<not> live (sockets (connectWebSocket (run [ConnectRequest, ConnectRequest] initial)) ! 1)"
  using one_open_transport [of "[ConnectRequest, ConnectRequest]"] two_connects by blast

section \<open>Teardown\<close>

lemma cancelRef_nth:
  "i < length (timers s) \<Longrightarrow>
   timers (cancelRef s) ! i
     = (if reconnectTimeoutRef s = Some (Suc i) \<and> timers s ! i = Pending then Cleared
        else timers s ! i)"
proof (cases "reconnectTimeoutRef s")
  case None
  then show ?thesis by (simp add: cancelRef_def)
next
  case (Some t)
  assume i: "i < length (timers s)"
  show ?thesis
  proof (cases "t = Suc i")
    case True
    with Some i show ?thesis by (simp add: cancelRef_def clearTimeout_def)
  next
    case False
    then have "t - 1 \<noteq> i \<or> t = 0" by arith
    with Some False i show ?thesis by (auto simp: cancelRef_def clearTimeout_def)
  qed
qed

lemma closeRef_nth:
  "w < length (sockets s) \<Longrightarrow>
   sockets (closeRef s) ! w
     = (if wsRef s = Some w \<and> live (sockets s ! w) then CLOSING else sockets s ! w)"
  by (cases "wsRef s") (auto simp: closeRef_def closeSocket_nth)

lemma cleanup_timers_nth:
  "i < length (timers s) \<Longrightarrow>
   timers (cleanup s) ! i
     = (if reconnectTimeoutRef s = Some (Suc i) \<and> timers s ! i = Pending then Cleared
        else timers s ! i)"
  using cancelRef_nth [of i "s\<lparr> isCleanedUp := True \<rparr>"]
  by (simp add: cleanup_def closeRef_fields)

lemma cleanup_sockets_nth:
  "w < length (sockets s) \<Longrightarrow>
   sockets (cleanup s) ! w
     = (if wsRef s = Some w \<and> live (sockets s ! w) then CLOSING else sockets s ! w)"
  using closeRef_nth [of w "cancelRef (s\<lparr> isCleanedUp := True \<rparr>)"]
  by (simp add: cleanup_def cancelRef_fields)

text \<open>
  C6. The cleanup sets the flag, cancels the timer that \<open>reconnectTimeoutRef\<close> holds when
  it is pending, calls \<open>close()\<close> on the socket that \<open>wsRef\<close> holds and sets \<open>wsRef\<close> to
  \<open>null\<close>. It leaves \<open>reconnectTimeoutRef\<close> as it was, and changes no other timer, no
  other socket and nothing of the store, the counter, the status, the connected flag
  and the filter.
\<close>

theorem teardown_effect:
  "isCleanedUp (cleanup s) \<and> wsRef (cleanup s) = None
   \<and> reconnectTimeoutRef (cleanup s) = reconnectTimeoutRef s
   \<and> length (timers (cleanup s)) = length (timers s)
   \<and> (\<forall>i < length (timers s).
         timers (cleanup s) ! i
           = (if reconnectTimeoutRef s = Some (Suc i) \<and> timers s ! i = Pending then Cleared
              else timers s ! i))
   \<and> length (sockets (cleanup s)) = length (sockets s)
   \<and> (\<forall>w < length (sockets s).
         sockets (cleanup s) ! w
           = (if wsRef s = Some w \<and> live (sockets s ! w) then CLOSING else sockets s ! w))
   \<and> logs (cleanup s) = logs s \<and> logCounterRef (cleanup s) = logCounterRef s
   \<and> isConnected (cleanup s) = isConnected s \<and> connectionStatus (cleanup s) = connectionStatus s
   \<and> filterLevel (cleanup s) = filterLevel s"
  by (simp add: cleanup_fields cleanup_timers_nth cleanup_sockets_nth)

lemma waitingState_eval:
  "sockets waitingState = [CLOSED] \<and> timers waitingState = [Pending]
   \<and> wsRef waitingState = Some 0 \<and> reconnectTimeoutRef waitingState = Some 1
   \<and> \<not> isCleanedUp waitingState"
  by (simp add: waitingState_def mount_def initial_def connectWebSocket_def newWebSocket_def
      onclose_def setReconnectTimeout_def Let_def)

theorem teardown_effect_witness:
  "0 < length (timers waitingState) \<and> reconnectTimeoutRef waitingState = Some (Suc 0)
   \<and> timers waitingState ! 0 = Pending \<and> timers (cleanup waitingState) ! 0 = Cleared
   \<and> 0 < length (sockets waitingState) \<and> sockets (cleanup waitingState) ! 0 = CLOSED
   \<and> wsRef (cleanup waitingState) = None"
  using teardown_effect [of waitingState] waitingState_eval by simp

text \<open>The timer reference is not set to \<open>null\<close>: after the cleanup it still holds the id
  of the canceled timer.\<close>

theorem teardown_keeps_timer_ref:
  "reconnectTimeoutRef (cleanup waitingState) = Some 1"
  using waitingState_eval by (simp add: cleanup_fields)

section \<open>After the teardown\<close>

text \<open>Once the flag is set: no socket and no timer is created, the flag stays, and what
  is closing or canceled stays so.\<close>

lemma connect_cleaned:
  "isCleanedUp s \<Longrightarrow>
   connectWebSocket s = (case wsRef s of None \<Rightarrow> s | Some w \<Rightarrow> closeSocket w s)"
  by (simp add: connectWebSocket_unfold)

lemma connect_cleaned_sockets:
  assumes c: "isCleanedUp s"
  shows "length (sockets (connectWebSocket s)) = length (sockets s)"
    and "noLive s \<Longrightarrow> noLive (connectWebSocket s)"
proof -
  show "length (sockets (connectWebSocket s)) = length (sockets s)"
    using c by (simp add: connect_cleaned closeSocket_fields split: option.splits)
  assume n: "noLive s"
  show "noLive (connectWebSocket s)"
  proof (cases "wsRef s")
    case None
    with c n show ?thesis by (simp add: connect_cleaned)
  next
    case (Some w)
    have "\<not> live (sockets (closeSocket w s) ! v)" if "v < length (sockets s)" for v
      using that n by (simp add: closeSocket_nth noLive_def)
    with c Some show ?thesis by (simp add: connect_cleaned noLive_def closeSocket_fields)
  qed
qed

lemma noPending_update:
  assumes "noPending s" and "timers t = (timers s)[i := x]" and "x \<noteq> Pending"
  shows "noPending t"
  unfolding noPending_def
proof (intro allI impI)
  fix j assume "j < length (timers t)"
  with assms(2) have j: "j < length (timers s)" by simp
  with assms(1) have "timers s ! j \<noteq> Pending" by (simp add: noPending_def)
  with assms(2,3) j show "timers t ! j \<noteq> Pending"
    by (cases "j = i") simp_all
qed

lemma noPending_same: "noPending s \<Longrightarrow> timers t = timers s \<Longrightarrow> noPending t"
  by (simp add: noPending_def)

lemma noPending_cleanup:
  assumes "noPending s \<or> pendingIsRef s"
  shows "noPending (cleanup s)"
  unfolding noPending_def
proof (intro allI impI)
  fix i assume "i < length (timers (cleanup s))"
  then have i: "i < length (timers s)" by (simp add: cleanup_fields)
  show "timers (cleanup s) ! i \<noteq> Pending"
  proof (cases "timers s ! i = Pending")
    case False
    with i show ?thesis by (simp add: cleanup_timers_nth)
  next
    case True
    with assms i have "reconnectTimeoutRef s = Some (Suc i)"
      by (auto simp: noPending_def pendingIsRef_def)
    with True i show ?thesis by (simp add: cleanup_timers_nth)
  qed
qed

lemma noLive_update:
  assumes "noLive s" and "sockets t = (sockets s)[w := x]" and "\<not> live x"
  shows "noLive t"
  unfolding noLive_def
proof (intro allI impI)
  fix v assume "v < length (sockets t)"
  with assms(2) have v: "v < length (sockets s)" by simp
  with assms(1) have "\<not> live (sockets s ! v)" by (simp add: noLive_def)
  with assms(2,3) v show "\<not> live (sockets t ! v)"
    by (cases "v = w") simp_all
qed

lemma noLive_same: "noLive s \<Longrightarrow> sockets t = sockets s \<Longrightarrow> noLive t"
  by (simp add: noLive_def)

lemma noLive_cleanup:
  assumes "noLive s" shows "noLive (cleanup s)"
  unfolding noLive_def
proof (intro allI impI)
  fix v assume "v < length (sockets (cleanup s))"
  then have v: "v < length (sockets s)" by (simp add: cleanup_fields)
  with assms have "\<not> live (sockets s ! v)" by (simp add: noLive_def)
  with v show "\<not> live (sockets (cleanup s) ! v)" by (simp add: cleanup_sockets_nth)
qed

lemma torn_step:
  assumes t: "torn s"
  shows "torn (step e s) \<and> length (sockets (step e s)) = length (sockets s)
       \<and> length (timers (step e s)) = length (timers s)
       \<and> (noPending s \<longrightarrow> noPending (step e s))"
proof -
  from t have c: "isCleanedUp s" and n: "noLive s" by (simp_all add: torn_def)
  show ?thesis
  proof (cases e)
    case ConnectRequest
    with c n connect_cleaned_sockets [OF c] show ?thesis
      by (simp add: torn_def connectWebSocket_fields noPending_def)
  next
    case (SocketOpen w)
    have "\<not> (w < length (sockets s) \<and> sockets s ! w = CONNECTING)"
    proof
      assume a: "w < length (sockets s) \<and> sockets s ! w = CONNECTING"
      then have "w < length (sockets s)" and "live (sockets s ! w)" by simp_all
      with n show False unfolding noLive_def by blast
    qed
    with SocketOpen t show ?thesis by auto
  next
    case (SocketMessage w h frame)
    have "noLive (onmessage h frame s)" using n by (rule noLive_same) (simp add: onmessage_fields)
    with SocketMessage c t show ?thesis
      by (simp add: torn_def onmessage_fields noPending_def)
  next
    case (SocketError w)
    with t show ?thesis by (simp add: torn_def onerror_def noLive_def noPending_def)
  next
    case (SocketClose w)
    let ?s = "s\<lparr> sockets := (sockets s)[w := CLOSED] \<rparr>"
    have oc: "onclose ?s = ?s\<lparr> isConnected := False, connectionStatus := ''Disconnected'' \<rparr>"
      using c by (simp add: onclose_def Let_def)
    have "noLive (onclose ?s)" using n
      by (rule noLive_update [where w = w and x = CLOSED]) (simp_all add: oc)
    with SocketClose c t show ?thesis
      by (auto simp: torn_def oc noPending_def)
  next
    case (TimerFired k)
    let ?s = "s\<lparr> timers := (timers s)[k - 1 := Fired], connectionStatus := ''Reconnecting...'' \<rparr>"
    have c': "isCleanedUp ?s" using c by simp
    have n': "noLive ?s" using n by (rule noLive_same) simp
    have np: "noPending ?s" if "noPending s"
      using that by (rule noPending_update [where i = "k - 1" and x = Fired]) simp_all
    have "noPending (connectWebSocket ?s)" if "noPending s"
      using np [OF that] by (rule noPending_same) (simp add: connectWebSocket_fields)
    with TimerFired c t connect_cleaned_sockets [OF c'] n' show ?thesis
      by (auto simp: torn_def reconnect_def connectWebSocket_fields)
  next
    case Teardown
    have "noPending (cleanup s)" if "noPending s"
      using that by (intro noPending_cleanup) simp
    with Teardown n show ?thesis
      by (simp add: torn_def cleanup_fields noLive_cleanup)
  next
    case ClearLogs
    with t show ?thesis by (simp add: torn_def clearLogs_def noLive_def noPending_def)
  next
    case (SetFilter x)
    with t show ?thesis by (simp add: torn_def noLive_def noPending_def)
  qed
qed

lemma torn_run:
  "torn s \<Longrightarrow>
   torn (run es s) \<and> length (sockets (run es s)) = length (sockets s)
   \<and> length (timers (run es s)) = length (timers s)
   \<and> (noPending s \<longrightarrow> noPending (run es s))"
proof (induction es arbitrary: s)
  case Nil
  then show ?case by simp
next
  case (Cons e es)
  from torn_step [OF Cons.prems, of e] have
    t: "torn (step e s)" and l: "length (sockets (step e s)) = length (sockets s)"
    and m: "length (timers (step e s)) = length (timers s)"
    and p: "noPending s \<longrightarrow> noPending (step e s)" by blast+
  from Cons.IH [OF t] l m p show ?case by simp
qed

text \<open>The reconnect cycle, when connect requests come only from the mount and from the
  timer callback.\<close>

lemma timerInv_fields:
  assumes "sockets t = sockets s" "timers t = timers s" "wsRef t = wsRef s"
    "reconnectTimeoutRef t = reconnectTimeoutRef s" "isCleanedUp t = isCleanedUp s"
  shows "timerInv t = timerInv s"
  using assms
  by (simp add: timerInv_def noPending_def noLive_def allClosed_def pendingIsRef_def openIsRef_def)

lemma allClosed_nth: "allClosed s \<Longrightarrow> w < length (sockets s) \<Longrightarrow> sockets s ! w = CLOSED"
  unfolding allClosed_def by blast

lemma openIsRef_nth:
  "openIsRef s \<Longrightarrow> w < length (sockets s) \<Longrightarrow> sockets s ! w \<noteq> CLOSED \<Longrightarrow> wsRef s = Some w"
  unfolding openIsRef_def by blast

lemma pendingIsRef_nth:
  "pendingIsRef s \<Longrightarrow> i < length (timers s) \<Longrightarrow> timers s ! i = Pending \<Longrightarrow>
   reconnectTimeoutRef s = Some (Suc i)"
  unfolding pendingIsRef_def by blast

lemma noPending_nth: "noPending s \<Longrightarrow> i < length (timers s) \<Longrightarrow> timers s ! i \<noteq> Pending"
  unfolding noPending_def by blast

lemma timerInv_open:
  assumes inv: "timerInv s" and c: "\<not> isCleanedUp s"
    and en: "w < length (sockets s)" "sockets s ! w = CONNECTING"
  shows "timerInv (onopen (s\<lparr> sockets := (sockets s)[w := OPEN] \<rparr>))"
proof -
  let ?t = "onopen (s\<lparr> sockets := (sockets s)[w := OPEN] \<rparr>)"
  have f: "sockets ?t = (sockets s)[w := OPEN]" "timers ?t = timers s" "wsRef ?t = wsRef s"
    "isCleanedUp ?t = isCleanedUp s"
    by (simp_all add: onopen_def)
  have "\<not> allClosed s"
  proof
    assume "allClosed s"
    then have "sockets s ! w = CLOSED" using en(1) by (rule allClosed_nth)
    with en(2) show False by simp
  qed
  with inv c have np: "noPending s" and o: "openIsRef s" by (auto simp: timerInv_def)
  have "noPending ?t" using np by (rule noPending_same) (simp add: f)
  moreover have "openIsRef ?t"
    unfolding openIsRef_def
  proof (intro allI impI)
    fix v assume v: "v < length (sockets ?t)" and nc: "sockets ?t ! v \<noteq> CLOSED"
    from v have v': "v < length (sockets s)" by (simp add: f)
    have "sockets s ! v \<noteq> CLOSED"
    proof (cases "v = w")
      case True
      with en(2) show ?thesis by simp
    next
      case False
      with nc v' show ?thesis by (simp add: f)
    qed
    with o v' have "wsRef s = Some v" by (rule openIsRef_nth)
    then show "wsRef ?t = Some v" by (simp add: f)
  qed
  ultimately show ?thesis using c by (simp add: timerInv_def f)
qed

lemma timerInv_close:
  assumes inv: "timerInv s" and c: "\<not> isCleanedUp s"
    and en: "w < length (sockets s)" "sockets s ! w \<noteq> CLOSED"
  shows "timerInv (onclose (s\<lparr> sockets := (sockets s)[w := CLOSED] \<rparr>))"
proof -
  let ?t = "onclose (s\<lparr> sockets := (sockets s)[w := CLOSED] \<rparr>)"
  have f: "sockets ?t = (sockets s)[w := CLOSED]" "isCleanedUp ?t = isCleanedUp s"
    by (simp_all add: onclose_fields)
  have g: "timers ?t = timers s @ [Pending]" "reconnectTimeoutRef ?t = Some (Suc (length (timers s)))"
    using c by (simp_all add: onclose_def setReconnectTimeout_def Let_def)
  have "\<not> allClosed s"
  proof
    assume "allClosed s"
    then have "sockets s ! w = CLOSED" using en(1) by (rule allClosed_nth)
    with en(2) show False by simp
  qed
  with inv c have np: "noPending s" and o: "openIsRef s" by (auto simp: timerInv_def)
  from o en have ref: "wsRef s = Some w" by (rule openIsRef_nth)
  have "allClosed ?t"
    unfolding allClosed_def
  proof (intro allI impI)
    fix v assume "v < length (sockets ?t)"
    then have v: "v < length (sockets s)" by (simp add: f)
    show "sockets ?t ! v = CLOSED"
    proof (cases "v = w")
      case True
      with v show ?thesis by (simp add: f)
    next
      case False
      have "sockets s ! v = CLOSED"
      proof (rule ccontr)
        assume "sockets s ! v \<noteq> CLOSED"
        with o v have "wsRef s = Some v" by (rule openIsRef_nth)
        with ref False show False by simp
      qed
      with False v show ?thesis by (simp add: f)
    qed
  qed
  moreover have "pendingIsRef ?t"
    unfolding pendingIsRef_def
  proof (intro allI impI)
    fix i assume i: "i < length (timers ?t)" and p: "timers ?t ! i = Pending"
    show "reconnectTimeoutRef ?t = Some (Suc i)"
    proof (cases "i < length (timers s)")
      case True
      with np have "timers s ! i \<noteq> Pending" by (rule noPending_nth)
      with p True show ?thesis by (simp add: g nth_append)
    next
      case False
      with i have "i = length (timers s)" by (simp add: g)
      then show ?thesis by (simp add: g)
    qed
  qed
  ultimately show ?thesis using c by (simp add: timerInv_def f)
qed

lemma timerInv_fired:
  assumes inv: "timerInv s" and c: "\<not> isCleanedUp s"
    and k: "j < length (timers s)" and en: "timers s ! j = Pending"
  shows "timerInv (reconnect (s\<lparr> timers := (timers s)[j := Fired] \<rparr>))"
proof -
  let ?u = "s\<lparr> timers := (timers s)[j := Fired], connectionStatus := ''Reconnecting...'' \<rparr>"
  let ?c = "case wsRef ?u of None \<Rightarrow> ?u | Some w \<Rightarrow> closeSocket w ?u"
  let ?t = "reconnect (s\<lparr> timers := (timers s)[j := Fired] \<rparr>)"
  have "\<not> noPending s"
  proof
    assume "noPending s"
    then have "timers s ! (j) \<noteq> Pending" using k by (rule noPending_nth)
    with en show False by simp
  qed
  with inv c have ac: "allClosed s" and pr: "pendingIsRef s" by (auto simp: timerInv_def)
  have cs: "sockets ?c = sockets s"
  proof (cases "wsRef s")
    case None
    then show ?thesis by simp
  next
    case (Some w)
    have n: "\<not> (w < length (sockets s) \<and> live (sockets s ! w))"
    proof
      assume a: "w < length (sockets s) \<and> live (sockets s ! w)"
      then have "w < length (sockets s)" by simp
      with ac have "sockets s ! w = CLOSED" by (rule allClosed_nth)
      with a show False by simp
    qed
    have "closeSocket w ?u = ?u"
      unfolding closeSocket_def by (rule if_not_P) (use n in simp)
    with Some show ?thesis by simp
  qed
  have t: "?t = newWebSocket ?c"
    using c by (simp add: reconnect_def connectWebSocket_unfold split: option.splits)
  have f: "sockets ?t = sockets s @ [CONNECTING]" "wsRef ?t = Some (length (sockets s))"
    using cs by (simp_all add: t newWebSocket_def)
  have g: "timers ?t = (timers s)[j := Fired]" "isCleanedUp ?t = isCleanedUp s"
    by (simp_all add: reconnect_def connectWebSocket_fields)
  have "noPending ?t"
    unfolding noPending_def
  proof (intro allI impI)
    fix i assume "i < length (timers ?t)"
    then have i: "i < length (timers s)" by (simp add: g)
    show "timers ?t ! i \<noteq> Pending"
    proof (cases "i = j")
      case True
      with i show ?thesis by (simp add: g)
    next
      case False
      have "timers s ! i \<noteq> Pending"
      proof
        assume "timers s ! i = Pending"
        with pr i have "reconnectTimeoutRef s = Some (Suc i)" by (rule pendingIsRef_nth)
        moreover from pr k en have "reconnectTimeoutRef s = Some (Suc (j))"
          by (rule pendingIsRef_nth)
        ultimately show False using False by simp
      qed
      with False i show ?thesis by (simp add: g)
    qed
  qed
  moreover have "openIsRef ?t"
    unfolding openIsRef_def
  proof (intro allI impI)
    fix v assume v: "v < length (sockets ?t)" and nc: "sockets ?t ! v \<noteq> CLOSED"
    have "\<not> v < length (sockets s)"
    proof
      assume v': "v < length (sockets s)"
      with ac have "sockets s ! v = CLOSED" by (rule allClosed_nth)
      with nc v' show False by (simp add: f nth_append)
    qed
    with v have "v = length (sockets s)" by (simp add: f)
    then show "wsRef ?t = Some v" by (simp add: f)
  qed
  ultimately show ?thesis using c by (simp add: timerInv_def g)
qed

lemma timerInv_cleanup:
  assumes inv: "timerInv s" and c: "\<not> isCleanedUp s"
  shows "timerInv (cleanup s)"
proof -
  from inv c have d: "(noPending s \<and> openIsRef s) \<or> (allClosed s \<and> pendingIsRef s)"
    by (simp add: timerInv_def)
  then have "noPending s \<or> pendingIsRef s" by blast
  then have np: "noPending (cleanup s)" by (rule noPending_cleanup)
  have "noLive (cleanup s)"
    unfolding noLive_def
  proof (intro allI impI)
    fix v assume "v < length (sockets (cleanup s))"
    then have v: "v < length (sockets s)" by (simp add: cleanup_fields)
    show "\<not> live (sockets (cleanup s) ! v)"
    proof (cases "live (sockets s ! v)")
      case False
      with v show ?thesis by (simp add: cleanup_sockets_nth)
    next
      case True
      then have nc: "sockets s ! v \<noteq> CLOSED" by auto
      have "\<not> allClosed s"
      proof
        assume "allClosed s"
        then have "sockets s ! v = CLOSED" using v by (rule allClosed_nth)
        with nc show False by simp
      qed
      with d have "openIsRef s" by blast
      then have "wsRef s = Some v" using v nc by (rule openIsRef_nth)
      with True v show ?thesis by (simp add: cleanup_sockets_nth)
    qed
  qed
  with np show ?thesis by (simp add: timerInv_def cleanup_fields)
qed

lemma timerInv_torn: "isCleanedUp s \<Longrightarrow> timerInv s = (torn s \<and> noPending s)"
  by (auto simp: timerInv_def torn_def)

lemma timerInv_step:
  assumes inv: "timerInv s" and e: "e \<noteq> ConnectRequest"
  shows "timerInv (step e s)"
proof (cases "isCleanedUp s")
  case True
  with inv have t: "torn s" and np: "noPending s" by (simp_all add: timerInv_torn)
  from torn_step [OF t, of e] np have "torn (step e s)" and "noPending (step e s)" by blast+
  moreover from \<open>torn (step e s)\<close> have "isCleanedUp (step e s)" by (simp add: torn_def)
  ultimately show ?thesis by (simp add: timerInv_torn)
next
  case False
  show ?thesis
  proof (cases e)
    case ConnectRequest
    with e show ?thesis by simp
  next
    case (SocketOpen w)
    with inv False timerInv_open [of s w] show ?thesis by auto
  next
    case (SocketMessage w h frame)
    have "timerInv (onmessage h frame s) = timerInv s"
      by (rule timerInv_fields) (simp_all add: onmessage_fields)
    with SocketMessage inv show ?thesis by simp
  next
    case (SocketError w)
    have "timerInv (onerror s) = timerInv s"
      by (rule timerInv_fields) (simp_all add: onerror_def)
    with SocketError inv show ?thesis by simp
  next
    case (SocketClose w)
    with inv False timerInv_close [of s w] show ?thesis by auto
  next
    case (TimerFired k)
    show ?thesis
    proof (cases "0 < k \<and> k \<le> length (timers s) \<and> timers s ! (k - 1) = Pending")
      case True
      then have "k - 1 < length (timers s)" and "timers s ! (k - 1) = Pending" by auto
      with inv False have "timerInv (reconnect (s\<lparr> timers := (timers s)[k - 1 := Fired] \<rparr>))"
        by (rule timerInv_fired)
      with TimerFired True show ?thesis by simp
    next
      case False
      with TimerFired inv show ?thesis by auto
    qed
  next
    case Teardown
    with inv False show ?thesis by (simp add: timerInv_cleanup)
  next
    case ClearLogs
    have "timerInv (clearLogs s) = timerInv s"
      by (rule timerInv_fields) (simp_all add: clearLogs_def)
    with ClearLogs inv show ?thesis by simp
  next
    case (SetFilter x)
    have "timerInv (s\<lparr> filterLevel := x \<rparr>) = timerInv s"
      by (rule timerInv_fields) simp_all
    with SetFilter inv show ?thesis by simp
  qed
qed

lemma timerInv_run:
  "timerInv s \<Longrightarrow> ConnectRequest \<notin> set es \<Longrightarrow> timerInv (run es s)"
proof (induction es arbitrary: s)
  case Nil
  then show ?case by simp
next
  case (Cons e es)
  from Cons.prems have "e \<noteq> ConnectRequest" and r: "ConnectRequest \<notin> set es" by auto
  with Cons.prems(1) have "timerInv (step e s)" by (intro timerInv_step)
  from Cons.IH [OF this r] show ?case by simp
qed

lemma timerInv_mount: "timerInv mount"
  by (simp add: timerInv_def noPending_def openIsRef_def mount_def initial_def
      connectWebSocket_def newWebSocket_def Let_def)

lemma mount_run: "run es mount = run (ConnectRequest # es) initial"
  by (simp add: mount_def)

lemma torn_cleanup_run: "torn (cleanup (run es mount))"
proof -
  have inv: "singleLive (run es mount)"
    unfolding mount_run using singleLive_initial by (rule singleLive_run)
  have "\<not> live (sockets (cleanup (run es mount)) ! v)"
    if "v < length (sockets (cleanup (run es mount)))" for v
  proof -
    from that have "v < length (sockets (run es mount))" by (simp add: cleanup_fields)
    with inv show ?thesis by (rule cleanup_none_live)
  qed
  then show ?thesis by (simp add: torn_def noLive_def cleanup_fields)
qed

text \<open>
  C5. Let the cleanup run at any moment after the mount, in particular while the
  reconnect timer is pending. The timer that \<open>reconnectTimeoutRef\<close> holds is then not
  pending any more, and whatever events follow (late close events, timer events,
  connect requests): no socket is created, no timer is created, the flag stays set and
  no socket is connecting or open. When the connect requests before the cleanup were
  those of the component itself (the mount and the timer callback), no timer at all is
  pending after the cleanup, so the callback never runs.
\<close>

theorem no_connect_after_teardown:
  "length (sockets (run es2 (cleanup (run es1 mount)))) = length (sockets (run es1 mount))
   \<and> length (timers (run es2 (cleanup (run es1 mount)))) = length (timers (run es1 mount))
   \<and> isCleanedUp (run es2 (cleanup (run es1 mount)))
   \<and> (\<forall>w < length (sockets (run es2 (cleanup (run es1 mount)))).
         \<not> live (sockets (run es2 (cleanup (run es1 mount))) ! w))
   \<and> (\<forall>i < length (timers (run es1 mount)).
         reconnectTimeoutRef (run es1 mount) = Some (Suc i) \<longrightarrow>
         timers (cleanup (run es1 mount)) ! i \<noteq> Pending)
   \<and> (ConnectRequest \<notin> set es1 \<longrightarrow>
        (\<forall>i < length (timers (run es2 (cleanup (run es1 mount)))).
           timers (run es2 (cleanup (run es1 mount))) ! i \<noteq> Pending))"
proof -
  let ?s0 = "run es1 mount"
  let ?s1 = "cleanup ?s0"
  let ?s2 = "run es2 ?s1"
  have t1: "torn ?s1" by (rule torn_cleanup_run)
  from torn_run [OF t1, of es2] have
    t2: "torn ?s2" and ls: "length (sockets ?s2) = length (sockets ?s1)"
    and lt: "length (timers ?s2) = length (timers ?s1)"
    and np: "noPending ?s1 \<longrightarrow> noPending ?s2" by blast+
  have a: "length (sockets ?s2) = length (sockets ?s0)" using ls by (simp add: cleanup_fields)
  have b: "length (timers ?s2) = length (timers ?s0)" using lt by (simp add: cleanup_fields)
  have c: "isCleanedUp ?s2" using t2 by (simp add: torn_def)
  have d: "\<forall>w < length (sockets ?s2). \<not> live (sockets ?s2 ! w)"
    using t2 by (simp add: torn_def noLive_def)
  have e: "\<forall>i < length (timers ?s0).
      reconnectTimeoutRef ?s0 = Some (Suc i) \<longrightarrow> timers ?s1 ! i \<noteq> Pending"
    by (simp add: cleanup_timers_nth)
  have f: "\<forall>i < length (timers ?s2). timers ?s2 ! i \<noteq> Pending" if "ConnectRequest \<notin> set es1"
  proof -
    from timerInv_mount that have inv: "timerInv ?s0" by (rule timerInv_run)
    have "noPending ?s1"
    proof (cases "isCleanedUp ?s0")
      case True
      with inv have "noPending ?s0" by (simp add: timerInv_def)
      then have "noPending ?s0 \<or> pendingIsRef ?s0" by simp
      then show ?thesis by (rule noPending_cleanup)
    next
      case False
      with inv have "timerInv ?s1" by (rule timerInv_cleanup)
      then show ?thesis by (simp add: timerInv_def cleanup_fields)
    qed
    with np have "noPending ?s2" by simp
    then show ?thesis by (simp add: noPending_def)
  qed
  from a b c d e f show ?thesis by blast
qed

lemma waiting_teardown_eval:
  "sockets (cleanup waitingState) = [CLOSED] \<and> timers (cleanup waitingState) = [Cleared]
   \<and> run [TimerFired 1, ConnectRequest, SocketClose 0] (cleanup waitingState)
       = cleanup waitingState"
proof -
  have c: "cleanup waitingState
      = waitingState\<lparr> isCleanedUp := True, timers := [Cleared], wsRef := None \<rparr>"
    using waitingState_eval
    by (simp add: cleanup_def cancelRef_def closeRef_def clearTimeout_def closeSocket_def)
  show ?thesis
    using waitingState_eval by (simp add: c connectWebSocket_def Let_def)
qed

theorem no_connect_after_teardown_witness:
  "ConnectRequest \<notin> set [SocketClose 0]
   \<and> 0 < length (timers (run [SocketClose 0] mount))
   \<and> reconnectTimeoutRef (run [SocketClose 0] mount) = Some (Suc 0)
   \<and> timers (run [SocketClose 0] mount) ! 0 = Pending
   \<and> timers (cleanup (run [SocketClose 0] mount)) ! 0 \<noteq> Pending
   \<and> length (sockets (run [TimerFired 1, ConnectRequest, SocketClose 0]
         (cleanup (run [SocketClose 0] mount)))) = 1
   \<and> timers (run [TimerFired 1, ConnectRequest, SocketClose 0]
         (cleanup (run [SocketClose 0] mount))) ! 0 \<noteq> Pending"
proof -
  have w: "run [SocketClose 0] mount = waitingState" by (simp add: waitingState_def)
  from no_connect_after_teardown [of "[TimerFired 1, ConnectRequest, SocketClose 0]" "[SocketClose 0]"]
    waitingState_eval waiting_teardown_eval
  show ?thesis unfolding w by simp
qed

section \<open>The error signal and the close signal\<close>

lemma step_timers_length:
  assumes "\<forall>v. e \<noteq> SocketClose v"
  shows "length (timers (step e s)) = length (timers s)"
  using assms
  by (cases e)
     (simp_all add: connectWebSocket_fields cleanup_fields onopen_def onerror_def onmessage_fields
        reconnect_def clearLogs_def)

lemma step_status:
  assumes "\<forall>v. e \<noteq> SocketClose v"
  shows "connectionStatus (step e s) = connectionStatus s
       \<or> connectionStatus (step e s) \<noteq> ''Disconnected''"
  using assms
  by (cases e)
     (simp_all add: connectWebSocket_fields cleanup_fields onopen_def onerror_def onmessage_fields
        reconnect_def clearLogs_def)

lemma onclose_timer:
  "\<not> isCleanedUp s \<Longrightarrow>
   timers (onclose s) = timers s @ [Pending]
   \<and> reconnectTimeoutRef (onclose s) = Some (Suc (length (timers s)))"
  by (simp add: onclose_def setReconnectTimeout_def Let_def)

text \<open>
  C9. The error event of a socket sets the status to \<open>Error\<close> and changes nothing else:
  sockets, timers, refs, store and counter are as before. An event that creates a
  timer, or that makes the status \<open>Disconnected\<close>, is a close event; the close event of
  a socket that is not yet closed sets the status to \<open>Disconnected\<close> and, unless the
  cleanup has run, arms a new timer and stores it in \<open>reconnectTimeoutRef\<close>.
\<close>

theorem error_only_sets_status:
  "step (SocketError w) s = (if w < length (sockets s) then s\<lparr> connectionStatus := ''Error'' \<rparr> else s)
   \<and> (length (timers (step e s)) \<noteq> length (timers s) \<longrightarrow> (\<exists>v. e = SocketClose v))
   \<and> (connectionStatus (step e s) = ''Disconnected'' \<and> connectionStatus s \<noteq> ''Disconnected''
        \<longrightarrow> (\<exists>v. e = SocketClose v))
   \<and> (v < length (sockets s) \<and> sockets s ! v \<noteq> CLOSED \<longrightarrow>
        connectionStatus (step (SocketClose v) s) = ''Disconnected''
        \<and> sockets (step (SocketClose v) s) = (sockets s)[v := CLOSED]
        \<and> (\<not> isCleanedUp s \<longrightarrow>
             timers (step (SocketClose v) s) = timers s @ [Pending]
             \<and> reconnectTimeoutRef (step (SocketClose v) s) = Some (Suc (length (timers s)))))"
proof (intro conjI impI)
  show "step (SocketError w) s = (if w < length (sockets s) then s\<lparr> connectionStatus := ''Error'' \<rparr> else s)"
    by (simp add: onerror_def)
next
  assume t: "length (timers (step e s)) \<noteq> length (timers s)"
  show "\<exists>v. e = SocketClose v"
  proof (rule ccontr)
    assume "\<nexists>v. e = SocketClose v"
    then have "\<forall>v. e \<noteq> SocketClose v" by simp
    then have "length (timers (step e s)) = length (timers s)" by (rule step_timers_length)
    with t show False by simp
  qed
next
  assume d: "connectionStatus (step e s) = ''Disconnected'' \<and> connectionStatus s \<noteq> ''Disconnected''"
  show "\<exists>v. e = SocketClose v"
  proof (rule ccontr)
    assume "\<nexists>v. e = SocketClose v"
    then have "\<forall>v. e \<noteq> SocketClose v" by simp
    then have "connectionStatus (step e s) = connectionStatus s
       \<or> connectionStatus (step e s) \<noteq> ''Disconnected''" by (rule step_status)
    with d show False by auto
  qed
next
  assume "v < length (sockets s) \<and> sockets s ! v \<noteq> CLOSED"
  then show "connectionStatus (step (SocketClose v) s) = ''Disconnected''"
    by (simp add: onclose_fields)
next
  assume "v < length (sockets s) \<and> sockets s ! v \<noteq> CLOSED"
  then show "sockets (step (SocketClose v) s) = (sockets s)[v := CLOSED]"
    by (simp add: onclose_fields)
next
  assume a: "v < length (sockets s) \<and> sockets s ! v \<noteq> CLOSED" and c: "\<not> isCleanedUp s"
  from c have "\<not> isCleanedUp (s\<lparr> sockets := (sockets s)[v := CLOSED] \<rparr>)" by simp
  from onclose_timer [OF this] a
  show "timers (step (SocketClose v) s) = timers s @ [Pending]" by simp
next
  assume a: "v < length (sockets s) \<and> sockets s ! v \<noteq> CLOSED" and c: "\<not> isCleanedUp s"
  from c have "\<not> isCleanedUp (s\<lparr> sockets := (sockets s)[v := CLOSED] \<rparr>)" by simp
  from onclose_timer [OF this] a
  show "reconnectTimeoutRef (step (SocketClose v) s) = Some (Suc (length (timers s)))" by simp
qed

lemma mount_eval:
  "sockets mount = [CONNECTING] \<and> timers mount = [] \<and> wsRef mount = Some 0
   \<and> reconnectTimeoutRef mount = None \<and> \<not> isCleanedUp mount
   \<and> connectionStatus mount = ''Disconnecting...'' \<and> logs mount = []"
  by (simp add: mount_def initial_def connectWebSocket_def newWebSocket_def Let_def)

theorem error_only_sets_status_witness:
  "0 < length (sockets mount) \<and> sockets mount ! 0 \<noteq> CLOSED \<and> \<not> isCleanedUp mount
   \<and> step (SocketError 0) mount = mount\<lparr> connectionStatus := ''Error'' \<rparr>
   \<and> length (timers (step (SocketClose 0) mount)) \<noteq> length (timers mount)
   \<and> connectionStatus (step (SocketClose 0) mount) = ''Disconnected''
   \<and> connectionStatus mount \<noteq> ''Disconnected''
   \<and> timers (step (SocketClose 0) mount) = [Pending]
   \<and> reconnectTimeoutRef (step (SocketClose 0) mount) = Some 1"
  using error_only_sets_status [of 0 mount "SocketClose 0" 0] mount_eval by simp

section \<open>The filter and the level menu\<close>






























lemma asciiUpper_nonempty: "l \<noteq> [] \<longrightarrow> asciiUpper l \<noteq> []"
  by (simp add: asciiUpper_def)













end
